theory Spec2Isabelle
  imports Complex_Main "HOL-Library.Sublist" "HOL-Library.AList"
begin

section \<open>JavaScript strings and values\<close>

text \<open>
  Strings are byte lists (UTF-8). \<open>String.prototype.includes\<close> is contiguous containment
  and \<open>Array.prototype.join\<close> puts the separator between the elements.
  Times are milliseconds as \<open>int\<close> (the values of \<open>Date.now()\<close>); the scores of the
  classifier are exact rationals where the source computes with doubles.
\<close>

definition str_includes :: "string \<Rightarrow> string \<Rightarrow> bool" where
  "str_includes s k = sublist k s"

definition lower_char :: "char \<Rightarrow> char" where
  "lower_char c =
     (case map_of (zip ''ABCDEFGHIJKLMNOPQRSTUVWXYZ'' ''abcdefghijklmnopqrstuvwxyz'') c of
        Some d \<Rightarrow> d
      | None \<Rightarrow> c)"

text \<open>
  \<open>String.prototype.toLowerCase\<close> follows Unicode. Two characters outside ASCII have a
  lowercase form with an ASCII letter in it: the Kelvin sign U+212A becomes \<open>k\<close>, and the
  capital I with dot above U+0130 becomes \<open>i\<close> followed by the combining dot U+0307. The
  ASCII capitals become the ASCII small letters. Every other character outside ASCII is
  left as it is: its lowercase form is outside ASCII as well.
\<close>

definition kelvin_sign :: string where
  "kelvin_sign = [CHR 0xE2, CHR 0x84, CHR 0xAA]"

definition capital_I_with_dot :: string where
  "capital_I_with_dot = [CHR 0xC4, CHR 0xB0]"

definition small_i_with_dot :: string where
  "small_i_with_dot = [CHR ''i'', CHR 0xCC, CHR 0x87]"

function toLowerCase :: "string \<Rightarrow> string" where
  "toLowerCase [] = []"
| "toLowerCase (c # cs) =
     (if prefix kelvin_sign (c # cs) then CHR ''k'' # toLowerCase (drop 2 cs)
      else if prefix capital_I_with_dot (c # cs) then small_i_with_dot @ toLowerCase (drop 1 cs)
      else lower_char c # toLowerCase cs)"
  by pat_completeness auto
termination
  by (relation "measure length") simp_all

fun join :: "string \<Rightarrow> string list \<Rightarrow> string" where
  "join sep [] = []"
| "join sep [x] = x"
| "join sep (x # y # ys) = x @ sep @ join sep (y # ys)"

definition digit_char :: "nat \<Rightarrow> char" where
  "digit_char d = ''0123456789'' ! (d mod 10)"

fun string_of_nat :: "nat \<Rightarrow> string" where
  "string_of_nat n =
     (if n < 10 then [digit_char n] else string_of_nat (n div 10) @ [digit_char (n mod 10)])"

definition is_digit :: "char \<Rightarrow> bool" where
  "is_digit c = (c \<in> set ''0123456789'')"

definition digit_val :: "char \<Rightarrow> int" where
  "digit_val c = (case map_of (zip ''0123456789'' [0, 1, 2, 3, 4, 5, 6, 7, 8, 9]) c of
                    Some d \<Rightarrow> d
                  | None \<Rightarrow> 0)"

definition dec_val :: "string \<Rightarrow> int" where
  "dec_val s = fold (\<lambda>c n. 10 * n + digit_val c) s 0"

text \<open>
  The property order of a plain object: the keys that are canonical array indices come
  first, in ascending numeric order, then the other string keys in the order of their
  creation. \<open>object_keys ks\<close> is the enumeration order of an object whose keys were
  assigned in the order \<open>ks\<close> (repeated assignments keep the first position).
\<close>

definition is_index_key :: "string \<Rightarrow> bool" where
  "is_index_key s =
     (s \<noteq> [] \<and> list_all is_digit s \<and> (s = ''0'' \<or> hd s \<noteq> CHR ''0'') \<and> dec_val s < 4294967295)"

definition object_keys :: "string list \<Rightarrow> string list" where
  "object_keys ks =
     (let ds = rev (remdups (rev ks))
      in sort_key dec_val (filter is_index_key ds) @ filter (\<lambda>k. \<not> is_index_key k) ds)"


section \<open>Constants and enums\<close>

datatype BanType = NONE | SPAM | VIOLATION | PERMANENT

datatype ReviewType = REVIEW_NONE | SELF_APPEAL | SUPPORT_REQUIRED

datatype AccountAge = NEW | MEDIUM | OLD | UNKNOWN

datatype ProbeStatus = PENDING | SUCCESS | FAILED | TIMEOUT | SKIPPED

definition ban_name :: "BanType \<Rightarrow> string" where
  "ban_name b = (case b of NONE \<Rightarrow> ''none'' | SPAM \<Rightarrow> ''spam''
                 | VIOLATION \<Rightarrow> ''violation'' | PERMANENT \<Rightarrow> ''permanent'')"


section \<open>Error patterns database\<close>

record pattern =
  pkeywords :: "string list"
  weight :: rat
  confidence :: rat

definition ERROR_PATTERNS :: "(BanType \<times> pattern) list" where
  "ERROR_PATTERNS =
     [(SPAM, \<lparr>pkeywords = [''spam'', ''rate limit'', ''too many'', ''blocked temporarily'',
                            ''429'', ''rate_limit''],
              weight = 1, confidence = 85 / 100\<rparr>),
      (VIOLATION, \<lparr>pkeywords = [''violation'', ''terms'', ''policy'', ''forbidden'', ''403'',
                                 ''401'', ''unauthorized''],
                   weight = 12 / 10, confidence = 90 / 100\<rparr>),
      (PERMANENT, \<lparr>pkeywords = [''permanently'', ''terminated'', ''deleted'', ''404'',
                                 ''banned from using'', ''account_deleted''],
                   weight = 15 / 10, confidence = 95 / 100\<rparr>)]"


section \<open>Pattern detector\<close>

text \<open>
  An entry of \<open>diagnostics.errorDetails\<close>. The entry pushed by the top-level handler of
  \<open>validate\<close> has no timestamp. A code \<open>''''\<close> and a timestamp \<open>Some 0\<close> are the falsy
  values that \<open>filter(Boolean)\<close> drops.
\<close>

record error_detail =
  stage :: string
  error :: string
  code :: string
  timestamp :: "int option"

record timing =
  timing_pattern :: string
  avgInterval :: "rat option"

record features =
  errorText :: string
  errorCodes :: "string list"
  errorCount :: nat
  successRate :: rat
  failurePatterns :: "string list"
  feat_timing :: timing

record score_data =
  raw :: rat
  normalized :: rat
  sd_confidence :: rat
  sd_matchCount :: nat

text \<open>
  The running \<open>bestMatch\<close> of \<open>_makePrediction\<close>, and the object \<open>analyze\<close> returns: the
  no-signal object \<open>{type, confidence}\<close> has neither \<open>score\<close> nor \<open>matchCount\<close>.
\<close>

record best_match =
  bm_type :: BanType
  bm_score :: rat
  bm_confidence :: rat
  bm_matchCount :: "nat option"

record prediction =
  pr_type :: BanType
  pr_score :: "rat option"
  pr_confidence :: rat
  pr_matchCount :: "nat option"

record history_entry =
  h_features :: features
  h_prediction :: prediction
  h_timestamp :: int

record MLPatternDetector =
  history :: "history_entry list"
  maxHistory :: nat

definition new_MLPatternDetector :: MLPatternDetector where
  "new_MLPatternDetector = \<lparr>history = [], maxHistory = 1000\<rparr>"

text \<open>
  \<open>codeCounts\<close> is a plain object \<open>{}\<close>. For a code that is the name of a property of
  \<open>Object.prototype\<close>, \<open>codeCounts[code] || 0\<close> is the inherited value, to which \<open>+ 1\<close>
  appends the character 1: the count is never a number, and \<open>count >= 2\<close> is false.
\<close>

definition Object_prototype_names :: "string list" where
  "Object_prototype_names =
     [''constructor'', ''__defineGetter__'', ''__defineSetter__'', ''hasOwnProperty'',
      ''__lookupGetter__'', ''__lookupSetter__'', ''isPrototypeOf'', ''propertyIsEnumerable'',
      ''toString'', ''valueOf'', ''__proto__'', ''toLocaleString'']"

definition identifyFailurePatterns :: "error_detail list \<Rightarrow> string list" where
  "identifyFailurePatterns errorDetails =
     (let errorCodes = map code errorDetails
      in (if length errorDetails \<ge> 3 then [''sequential_failures''] else []) @
         map (\<lambda>c. ''repeated_'' @ c)
           (filter (\<lambda>c. c \<notin> set Object_prototype_names \<and> count_list errorCodes c \<ge> 2)
              (object_keys errorCodes)))"

fun intervals :: "int list \<Rightarrow> int list" where
  "intervals (a # b # ts) = (b - a) # intervals (b # ts)"
| "intervals ts = []"

definition analyzeResponseTimes :: "error_detail list \<Rightarrow> timing" where
  "analyzeResponseTimes errorDetails =
     (let times = filter (\<lambda>t. t \<noteq> 0) (List.map_filter timestamp errorDetails)
      in if length times < 2 then \<lparr>timing_pattern = ''insufficient_data'', avgInterval = None\<rparr>
         else let avg = of_int (sum_list (intervals times)) / of_nat (length (intervals times))
              in \<lparr>timing_pattern = (if avg < 1000 then ''rapid_failures'' else ''delayed_failures''),
                  avgInterval = Some avg\<rparr>)"

text \<open>
  \<open>probeResults.successRate || 0\<close>: the second argument of \<open>analyze\<close> is the success rate,
  \<open>None\<close> when the caller gives none (or \<open>NaN\<close>).
\<close>

definition extractFeatures :: "error_detail list \<Rightarrow> rat option \<Rightarrow> features" where
  "extractFeatures errorDetails rate =
     \<lparr>errorText = join '' '' (map (\<lambda>e. toLowerCase (error e)) errorDetails),
      errorCodes = filter (\<lambda>c. c \<noteq> []) (map code errorDetails),
      errorCount = length errorDetails,
      successRate = (case rate of None \<Rightarrow> 0 | Some x \<Rightarrow> x),
      failurePatterns = identifyFailurePatterns errorDetails,
      feat_timing = analyzeResponseTimes errorDetails\<rparr>"

definition keyword_matching :: "features \<Rightarrow> pattern \<Rightarrow> rat \<times> nat \<Rightarrow> rat \<times> nat" where
  "keyword_matching f p acc =
     fold (\<lambda>keyword (score, matchCount).
             if str_includes (errorText f) keyword then (score + weight p, matchCount + 1)
             else (score, matchCount))
       (pkeywords p) acc"

definition code_matching :: "features \<Rightarrow> pattern \<Rightarrow> rat \<times> nat \<Rightarrow> rat \<times> nat" where
  "code_matching f p acc =
     fold (\<lambda>c (score, matchCount).
             if toLowerCase c \<in> set (pkeywords p) then (score + weight p * (15 / 10), matchCount + 1)
             else (score, matchCount))
       (errorCodes f) acc"

definition pattern_score :: "features \<Rightarrow> pattern \<Rightarrow> score_data" where
  "pattern_score f p =
     (let (score1, matchCount) = code_matching f p (keyword_matching f p (0, 0));
          score2 = (if successRate f < 3 / 10 then score1 + 5 / 10 else score1);
          score3 = (if length (failurePatterns f) > 2
                    then score2 + (3 / 10) * of_nat (length (failurePatterns f)) else score2)
      in \<lparr>raw = score3,
          normalized = min (score3 / 5) 1,
          sd_confidence = (if matchCount > 0 then confidence p else 0),
          sd_matchCount = matchCount\<rparr>)"

definition calculateScores :: "features \<Rightarrow> (BanType \<times> score_data) list" where
  "calculateScores f = map (\<lambda>(banType, p). (banType, pattern_score f p)) ERROR_PATTERNS"

text \<open>The body of the loop of \<open>_makePrediction\<close>: a strictly larger normalized score replaces the best match.\<close>

definition bestMatch_step :: "BanType \<times> score_data \<Rightarrow> best_match \<Rightarrow> best_match" where
  "bestMatch_step = (\<lambda>(banType, scoreData) bestMatch.
     if normalized scoreData > bm_score bestMatch
     then \<lparr>bm_type = banType, bm_score = normalized scoreData,
           bm_confidence = sd_confidence scoreData,
           bm_matchCount = Some (sd_matchCount scoreData)\<rparr>
     else bestMatch)"

definition makePrediction :: "(BanType \<times> score_data) list \<Rightarrow> prediction" where
  "makePrediction scores =
     (let bestMatch = fold bestMatch_step scores
                        \<lparr>bm_type = NONE, bm_score = 0, bm_confidence = 0, bm_matchCount = None\<rparr>
      in if bm_score bestMatch < 3 / 10
         then \<lparr>pr_type = NONE, pr_score = None, pr_confidence = 5 / 10, pr_matchCount = None\<rparr>
         else \<lparr>pr_type = bm_type bestMatch, pr_score = Some (bm_score bestMatch),
               pr_confidence = bm_confidence bestMatch,
               pr_matchCount = bm_matchCount bestMatch\<rparr>)"

definition updateHistory :: "MLPatternDetector \<Rightarrow> features \<Rightarrow> prediction \<Rightarrow> int \<Rightarrow> MLPatternDetector" where
  "updateHistory d f p now =
     (let h = history d @ [\<lparr>h_features = f, h_prediction = p, h_timestamp = now\<rparr>]
      in d\<lparr>history := (if length h > maxHistory d then tl h else h)\<rparr>)"

text \<open>\<open>analyze\<close> returns the prediction; the detector with its new history is the second component.\<close>

definition analyze :: "MLPatternDetector \<Rightarrow> error_detail list \<Rightarrow> rat option \<Rightarrow> int \<Rightarrow> prediction \<times> MLPatternDetector" where
  "analyze d errorDetails rate now =
     (let f = extractFeatures errorDetails rate;
          scores = calculateScores f;
          p = makePrediction scores
      in (p, updateHistory d f p now))"

section \<open>Validation cache\<close>

text \<open>
  The cache is a JavaScript \<open>Map\<close>, which iterates in insertion order: an association
  list with \<open>AList.update\<close> (a new key goes to the end, a known key keeps its place) and
  \<open>AList.delete\<close>. \<open>Date.now()\<close> is the argument \<open>now\<close>.
\<close>

record 'v cache_entry =
  data :: 'v
  ce_timestamp :: int
  lastAccess :: int
  accessCount :: nat

record 'v ValidationCache =
  cache :: "(string \<times> 'v cache_entry) list"
  ttl :: int
  maxSize :: nat
  hits :: nat
  misses :: nat

text \<open>\<open>options.ttl || 3600000\<close>, \<open>options.maxSize || 1000\<close>: an absent or zero option gives the default.\<close>

definition new_ValidationCache :: "int option \<Rightarrow> nat option \<Rightarrow> 'v ValidationCache" where
  "new_ValidationCache ttl_opt maxSize_opt =
     \<lparr>cache = [],
      ttl = (case ttl_opt of None \<Rightarrow> 3600000 | Some t \<Rightarrow> if t = 0 then 3600000 else t),
      maxSize = (case maxSize_opt of None \<Rightarrow> 1000 | Some n \<Rightarrow> if n = 0 then 1000 else n),
      hits = 0, misses = 0\<rparr>"

definition cache_get :: "'v ValidationCache \<Rightarrow> string \<Rightarrow> int \<Rightarrow> 'v option \<times> 'v ValidationCache" where
  "cache_get c key now =
     (case map_of (cache c) key of
        None \<Rightarrow> (None, c\<lparr>misses := misses c + 1\<rparr>)
      | Some entry \<Rightarrow>
          if now - ce_timestamp entry > ttl c
          then (None, c\<lparr>cache := AList.delete key (cache c), misses := misses c + 1\<rparr>)
          else (Some (data entry),
                c\<lparr>hits := hits c + 1,
                  cache := AList.update key
                             (entry\<lparr>accessCount := accessCount entry + 1, lastAccess := now\<rparr>)
                             (cache c)\<rparr>))"

text \<open>
  The loop of \<open>_evictLRU\<close>: \<open>oldest\<close> starts as \<open>null\<close> and \<open>oldestTime\<close> as \<open>Infinity\<close>
  (\<open>None\<close>), below which every \<open>lastAccess\<close> lies.
\<close>

definition evict_step :: "string \<times> 'v cache_entry \<Rightarrow> string option \<times> int option \<Rightarrow> string option \<times> int option" where
  "evict_step = (\<lambda>(key, entry) (oldest, oldestTime).
     if (case oldestTime of None \<Rightarrow> True | Some t \<Rightarrow> lastAccess entry < t)
     then (Some key, Some (lastAccess entry))
     else (oldest, oldestTime))"

text \<open>\<open>if (oldest)\<close> tests the key for truthiness: \<open>null\<close> and the empty string are falsy.\<close>

definition evictLRU :: "'v ValidationCache \<Rightarrow> 'v ValidationCache" where
  "evictLRU c =
     (case fst (fold evict_step (cache c) (None, None)) of
        None \<Rightarrow> c
      | Some oldest \<Rightarrow> if oldest \<noteq> [] then c\<lparr>cache := AList.delete oldest (cache c)\<rparr> else c)"

definition cache_set :: "'v ValidationCache \<Rightarrow> string \<Rightarrow> 'v \<Rightarrow> int \<Rightarrow> 'v ValidationCache" where
  "cache_set c key d now =
     (let c1 = (if length (cache c) \<ge> maxSize c then evictLRU c else c)
      in c1\<lparr>cache := AList.update key
                         \<lparr>data = d, ce_timestamp = now, lastAccess = now, accessCount = 1\<rparr>
                         (cache c1)\<rparr>)"

definition cache_clear :: "'v ValidationCache \<Rightarrow> 'v ValidationCache" where
  "cache_clear c = c\<lparr>cache := [], hits := 0, misses := 0\<rparr>"

record cache_stats =
  st_size :: nat
  st_hits :: nat
  st_misses :: nat
  st_hitRate :: rat
  st_maxSize :: nat

definition cache_stats :: "'v ValidationCache \<Rightarrow> cache_stats" where
  "cache_stats c =
     (let total = hits c + misses c
      in \<lparr>st_size = length (cache c), st_hits = hits c, st_misses = misses c,
          st_hitRate = (if total > 0 then of_nat (hits c) / of_nat total else 0),
          st_maxSize = maxSize c\<rparr>)"

text \<open>
  A run of \<open>set\<close> calls \<open>(key, value, time)\<close> with no \<open>get\<close> in between, and the keys a
  run of \<open>set\<close> calls has evicted.
\<close>

fun cache_sets :: "'v ValidationCache \<Rightarrow> (string \<times> 'v \<times> int) list \<Rightarrow> 'v ValidationCache" where
  "cache_sets c [] = c"
| "cache_sets c ((key, d, now) # calls) = cache_sets (cache_set c key d now) calls"


section \<open>Rate limiter\<close>

record RateLimiter =
  maxRequests :: int
  windowMs :: int
  requests :: "int list"

text \<open>\<open>options.maxRequests || 10\<close>, \<open>options.windowMs || 60000\<close>.\<close>

definition new_RateLimiter :: "int option \<Rightarrow> int option \<Rightarrow> RateLimiter" where
  "new_RateLimiter maxRequests_opt windowMs_opt =
     \<lparr>maxRequests = (case maxRequests_opt of None \<Rightarrow> 10 | Some n \<Rightarrow> if n = 0 then 10 else n),
      windowMs = (case windowMs_opt of None \<Rightarrow> 60000 | Some w \<Rightarrow> if w = 0 then 60000 else w),
      requests = []\<rparr>"

text \<open>
  One pass through the body of \<open>acquire\<close> at time \<open>now\<close>, up to the \<open>await\<close>: the old
  requests are removed; then either the caller has to wait (\<open>Some waitTime\<close>), or \<open>now\<close> is
  pushed (\<open>None\<close>). Nothing else runs between the test and the push. With an empty list
  \<open>requests[0]\<close> is \<open>undefined\<close> and \<open>waitTime\<close> is \<open>NaN\<close>, which is not \<open>> 0\<close>.
\<close>

definition acquire_pass :: "RateLimiter \<Rightarrow> int \<Rightarrow> RateLimiter \<times> int option" where
  "acquire_pass rl now =
     (let reqs = filter (\<lambda>time. now - time < windowMs rl) (requests rl)
      in if int (length reqs) \<ge> maxRequests rl
         then (case reqs of
                 [] \<Rightarrow> (rl\<lparr>requests := reqs @ [now]\<rparr>, None)
               | oldestRequest # _ \<Rightarrow>
                   let waitTime = windowMs rl - (now - oldestRequest)
                   in if waitTime > 0 then (rl\<lparr>requests := reqs\<rparr>, Some waitTime)
                      else (rl\<lparr>requests := reqs @ [now]\<rparr>, None))
         else (rl\<lparr>requests := reqs @ [now]\<rparr>, None))"

text \<open>
  \<open>acquire\<close> called at time \<open>now\<close>: after \<open>_delay(waitTime)\<close> the caller wakes up no earlier
  than \<open>waitTime\<close> later (the timer is late by the head of \<open>late\<close>, by nothing once the
  list is used up) and retries. The result is the limiter and the time at which \<open>acquire\<close>
  returns, which is the timestamp it has pushed.
\<close>

function acquire :: "RateLimiter \<Rightarrow> int \<Rightarrow> nat list \<Rightarrow> RateLimiter \<times> int" where
  "acquire rl now late =
     (case acquire_pass rl now of
        (rl', None) \<Rightarrow> (rl', now)
      | (rl', Some waitTime) \<Rightarrow>
          acquire rl' (now + waitTime + (case late of [] \<Rightarrow> 0 | l # _ \<Rightarrow> int l)) (tl late))"
  by pat_completeness auto
termination
  apply (relation "measure (\<lambda>(rl, now, late). length (filter (\<lambda>time. now - time < windowMs rl) (requests rl)))")
   apply simp
  apply (auto simp: acquire_pass_def Let_def less_Suc_eq_le split: if_splits list.splits)
  done

declare acquire.simps [simp del]

definition reset :: "RateLimiter \<Rightarrow> RateLimiter" where
  "reset rl = rl\<lparr>requests := []\<rparr>"

record limiter_status =
  activeRequests :: nat
  ls_maxRequests :: int
  remaining :: int
  resetAt :: "int option"

definition getStatus :: "RateLimiter \<Rightarrow> int \<Rightarrow> limiter_status" where
  "getStatus rl now =
     (let active = filter (\<lambda>time. now - time < windowMs rl) (requests rl)
      in \<lparr>activeRequests = length active,
          ls_maxRequests = maxRequests rl,
          remaining = max 0 (maxRequests rl - int (length active)),
          resetAt = (case active of [] \<Rightarrow> None | t # _ \<Rightarrow> Some (t + windowMs rl))\<rparr>)"

text \<open>
  The limiter is shared by all callers. Whatever their number, its state goes through one
  pass after the other, at the times the callers run: \<open>limiter_run rl ts\<close> is the
  limiter after the passes at the times \<open>ts\<close>, with the timestamps pushed on the way, in order.
\<close>

fun limiter_run :: "RateLimiter \<Rightarrow> int list \<Rightarrow> RateLimiter \<times> int list" where
  "limiter_run rl [] = (rl, [])"
| "limiter_run rl (now # ts) =
     (case acquire_pass rl now of
        (rl', None) \<Rightarrow> (case limiter_run rl' ts of (rl'', pushed) \<Rightarrow> (rl'', now # pushed))
      | (rl', Some waitTime) \<Rightarrow> limiter_run rl' ts)"

section \<open>Values thrown and promises\<close>

text \<open>
  What a call of the connection can be rejected with: an \<open>Error\<close> object (name and
  message), a string, \<open>undefined\<close> or \<open>null\<close>. Reading a property of \<open>undefined\<close> or
  \<open>null\<close> raises a \<open>TypeError\<close>, the only exception the validator's own code raises.
\<close>

datatype js_value = ErrorObj string string | StrVal string | Undefined | Null

datatype js_exception = TypeError string

definition exception_message :: "js_exception \<Rightarrow> string" where
  "exception_message e = (case e of TypeError m \<Rightarrow> m)"

definition js_toString :: "js_value \<Rightarrow> string" where
  "js_toString v =
     (case v of
        ErrorObj n m \<Rightarrow> if n = [] then m else if m = [] then n else n @ '': '' @ m
      | StrVal s \<Rightarrow> s
      | Undefined \<Rightarrow> ''undefined''
      | Null \<Rightarrow> ''null'')"

definition js_message :: "js_value \<Rightarrow> string option" where
  "js_message v = (case v of ErrorObj n m \<Rightarrow> Some m | _ \<Rightarrow> None)"

definition read_message_of_nullish :: "string \<Rightarrow> js_exception" where
  "read_message_of_nullish what =
     TypeError (''Cannot read properties of '' @ what @ '' (reading '' @ [CHR 0x27]
                @ ''message'' @ [CHR 0x27] @ '')'')"

datatype 'a reply = Resolve 'a | Reject js_value

text \<open>
  A call of the connection settles after a latency (in ms) with a reply.
  \<open>_executeWithTimeout\<close> races it against a timer: an answer that takes as long as the
  timeout or longer loses against \<open>Error('Operation timeout')\<close>. The result is the reply
  that wins and the time at which it does.
\<close>

type_synonym 'a call = "nat \<times> 'a reply"

definition executeWithTimeout :: "'a call \<Rightarrow> int \<Rightarrow> int \<Rightarrow> 'a reply \<times> int" where
  "executeWithTimeout c tmo now =
     (case c of (latency, r) \<Rightarrow>
        if int latency < tmo then (r, now + int latency)
        else (Reject (ErrorObj ''Error'' ''Operation timeout''), now + max 0 tmo))"

datatype payload = Nothing | StatusInfo string "int option" | Opaque

text \<open>
  The remote connection. The probes may be called again on a retry: the \<open>nat\<close> is the
  number of earlier calls of the method in this validation. \<open>onWhatsApp\<close> resolves to
  \<open>undefined\<close> (\<open>None\<close>) or to a list of entries, of which \<open>exists\<close> is read.
\<close>

record connection =
  onWhatsApp :: "string \<Rightarrow> (bool list option) call"
  fetchStatus :: "string \<Rightarrow> nat \<Rightarrow> payload call"
  profilePictureUrl :: "string \<Rightarrow> nat \<Rightarrow> payload call"
  getBusinessProfile :: "string \<Rightarrow> nat \<Rightarrow> payload call"
  presenceSubscribe :: "string \<Rightarrow> nat \<Rightarrow> payload call"


section \<open>Validation result\<close>

record ban_info =
  isBanned :: bool
  ban_type :: BanType
  detectionMethods :: "string list"
  mlConfidence :: "rat option"

record review_info =
  available :: bool
  review_type :: ReviewType
  estimatedTime :: "string option"

record account_info =
  hasStatus :: bool
  statusText :: "string option"
  hasProfilePicture :: bool
  isBusinessAccount :: bool
  age :: AccountAge
  presenceAvailable :: bool

record probe_result =
  res_name :: string
  res_status :: ProbeStatus
  res_duration :: int
  res_error :: "string option"

record diagnostics_info =
  responseTime :: "int option"
  probsExecuted :: nat
  probsSuccessful :: nat
  errorDetails :: "error_detail list"
  fallbacksUsed :: "string list"
  probeResults :: "probe_result list"

record validation_result =
  number :: string
  jid :: string
  vr_timestamp :: int
  isRegistered :: bool
  isActive :: bool
  ban :: ban_info
  review :: review_info
  account :: account_info
  diagnostics :: diagnostics_info
  recommendations :: "string list"
  summary :: string

definition createResultObject :: "string \<Rightarrow> string \<Rightarrow> int \<Rightarrow> validation_result" where
  "createResultObject phoneNumber j now =
     \<lparr>number = phoneNumber, jid = j, vr_timestamp = now, isRegistered = False, isActive = False,
      ban = \<lparr>isBanned = False, ban_type = NONE, detectionMethods = [], mlConfidence = None\<rparr>,
      review = \<lparr>available = False, review_type = REVIEW_NONE, estimatedTime = None\<rparr>,
      account = \<lparr>hasStatus = False, statusText = None, hasProfilePicture = False,
                 isBusinessAccount = False, age = UNKNOWN, presenceAvailable = False\<rparr>,
      diagnostics = \<lparr>responseTime = None, probsExecuted = 0, probsSuccessful = 0,
                     errorDetails = [], fallbacksUsed = [], probeResults = []\<rparr>,
      recommendations = [], summary = []\<rparr>"

text \<open>The mutations of the result object that the validator repeats.\<close>

definition push_detectionMethod :: "string \<Rightarrow> validation_result \<Rightarrow> validation_result" where
  "push_detectionMethod m result =
     result\<lparr>ban := (ban result)\<lparr>detectionMethods := detectionMethods (ban result) @ [m]\<rparr>\<rparr>"

definition inc_probsExecuted :: "validation_result \<Rightarrow> validation_result" where
  "inc_probsExecuted result =
     result\<lparr>diagnostics := (diagnostics result)\<lparr>probsExecuted := probsExecuted (diagnostics result) + 1\<rparr>\<rparr>"

definition inc_probsSuccessful :: "validation_result \<Rightarrow> validation_result" where
  "inc_probsSuccessful result =
     result\<lparr>diagnostics := (diagnostics result)\<lparr>probsSuccessful := probsSuccessful (diagnostics result) + 1\<rparr>\<rparr>"

definition push_errorDetail :: "error_detail \<Rightarrow> validation_result \<Rightarrow> validation_result" where
  "push_errorDetail e result =
     result\<lparr>diagnostics := (diagnostics result)\<lparr>errorDetails := errorDetails (diagnostics result) @ [e]\<rparr>\<rparr>"

definition push_fallbackUsed :: "string \<Rightarrow> validation_result \<Rightarrow> validation_result" where
  "push_fallbackUsed s result =
     result\<lparr>diagnostics := (diagnostics result)\<lparr>fallbacksUsed := fallbacksUsed (diagnostics result) @ [s]\<rparr>\<rparr>"

definition push_probeResult :: "probe_result \<Rightarrow> validation_result \<Rightarrow> validation_result" where
  "push_probeResult p result =
     result\<lparr>diagnostics := (diagnostics result)\<lparr>probeResults := probeResults (diagnostics result) @ [p]\<rparr>\<rparr>"


section \<open>Recording errors\<close>

definition extractErrorCode :: "js_value \<Rightarrow> string" where
  "extractErrorCode err =
     (let errorStr = js_toString err
      in case find (str_includes errorStr) [''403'', ''401'', ''404'', ''429'', ''500''] of
           Some c \<Rightarrow> c
         | None \<Rightarrow>
             if str_includes (toLowerCase errorStr) ''timeout'' then ''TIMEOUT''
             else if str_includes (toLowerCase errorStr) ''forbidden'' then ''403''
             else ''UNKNOWN'')"

definition isFatalError :: "js_value \<Rightarrow> bool" where
  "isFatalError err =
     list_ex (str_includes (toLowerCase (js_toString err)))
       [''404'', ''permanently'', ''deleted'', ''terminated'']"

text \<open>
  \<open>_recordError\<close> reads \<open>error.message\<close> before it pushes anything: on \<open>undefined\<close> or
  \<open>null\<close> it raises and the result is as it was.
\<close>

definition recordError :: "string \<Rightarrow> js_value \<Rightarrow> validation_result \<Rightarrow> int \<Rightarrow> js_exception + validation_result" where
  "recordError stg err result now =
     (case err of
        Undefined \<Rightarrow> Inl (read_message_of_nullish ''undefined'')
      | Null \<Rightarrow> Inl (read_message_of_nullish ''null'')
      | _ \<Rightarrow>
          Inr (push_errorDetail
                 \<lparr>stage = stg,
                  error = (case js_message err of
                             Some m \<Rightarrow> if m \<noteq> [] then m else js_toString err
                           | None \<Rightarrow> js_toString err),
                  code = extractErrorCode err,
                  timestamp = Some now\<rparr>
                 result))"


section \<open>Configuration and subsystems\<close>

text \<open>
  The configuration after the defaults are merged. Analytics, health, events and plugins
  read the result and do not change it (no plugin is registered by default); they are
  left out.
\<close>

record config =
  timeout :: int
  parallelProbes :: bool
  enablePresenceCheck :: bool
  retryOnFailure :: bool
  maxRetries :: nat
  enableCache :: bool
  cacheTTL :: int
  enableRateLimiting :: bool
  rateLimit_maxRequests :: "int option"
  rateLimit_windowMs :: "int option"
  enableMLDetection :: bool

definition default_config :: config where
  "default_config =
     \<lparr>timeout = 8000, parallelProbes = True, enablePresenceCheck = True, retryOnFailure = True,
      maxRetries = 2, enableCache = True, cacheTTL = 3600000, enableRateLimiting = True,
      rateLimit_maxRequests = Some 10, rateLimit_windowMs = Some 60000,
      enableMLDetection = True\<rparr>"

record validator =
  v_config :: config
  v_cache :: "validation_result ValidationCache option"
  v_rateLimiter :: "RateLimiter option"
  v_mlDetector :: "MLPatternDetector option"

definition new_validator :: "config \<Rightarrow> validator" where
  "new_validator cfg =
     \<lparr>v_config = cfg,
      v_cache = (if enableCache cfg then Some (new_ValidationCache (Some (cacheTTL cfg)) (Some 1000))
                 else None),
      v_rateLimiter = (if enableRateLimiting cfg
                       then Some (new_RateLimiter (rateLimit_maxRequests cfg) (rateLimit_windowMs cfg))
                       else None),
      v_mlDetector = (if enableMLDetection cfg then Some new_MLPatternDetector else None)\<rparr>"


section \<open>Registration\<close>

definition checkRegistration :: "config \<Rightarrow> connection \<Rightarrow> string \<Rightarrow> validation_result \<Rightarrow> int \<Rightarrow> validation_result \<times> int \<times> js_exception option" where
  "checkRegistration cfg conn j result now =
     (case executeWithTimeout (onWhatsApp conn j) (timeout cfg) now of
        (Resolve check, t) \<Rightarrow>
          let registered = (case check of Some (e # _) \<Rightarrow> e | _ \<Rightarrow> False);
              r1 = result\<lparr>isRegistered := registered, isActive := registered\<rparr>
          in if registered
             then (inc_probsSuccessful (inc_probsExecuted
                     (push_detectionMethod ''registration_verified'' r1)), t, None)
             else (r1, t, None)
      | (Reject err, t) \<Rightarrow>
          (case recordError ''registration'' err result t of
             Inl exc \<Rightarrow> (result, t, Some exc)
           | Inr r1 \<Rightarrow> (r1, t, None)))"


section \<open>Probes\<close>

record probe =
  name :: string
  priority :: int
  fn :: "nat \<Rightarrow> payload call"
  p_timeout :: int

definition buildProbeList :: "config \<Rightarrow> connection \<Rightarrow> string \<Rightarrow> probe list" where
  "buildProbeList cfg conn j =
     (let probes =
            [\<lparr>name = ''status'', priority = 1, fn = fetchStatus conn j, p_timeout = timeout cfg\<rparr>,
             \<lparr>name = ''profile_picture'', priority = 2, fn = profilePictureUrl conn j,
              p_timeout = timeout cfg\<rparr>,
             \<lparr>name = ''business_profile'', priority = 3, fn = getBusinessProfile conn j,
              p_timeout = timeout cfg\<rparr>]
            @ (if enablePresenceCheck cfg
               then [\<lparr>name = ''presence'', priority = 4, fn = presenceSubscribe conn j,
                      p_timeout = timeout cfg + 3000\<rparr>]
               else [])
      in sort_key priority probes)"

definition processProbeResult :: "string \<Rightarrow> payload \<Rightarrow> validation_result \<Rightarrow> int \<Rightarrow> validation_result" where
  "processProbeResult probeName probeResult result now =
     (if probeName = ''status'' then
        (case probeResult of
           StatusInfo st setAt \<Rightarrow>
             if st \<noteq> [] then
               let r1 = push_detectionMethod ''status_accessible''
                          (result\<lparr>account := (account result)\<lparr>hasStatus := True, statusText := Some st\<rparr>\<rparr>)
               in (case setAt of
                     None \<Rightarrow> r1
                   | Some t \<Rightarrow>
                       if t \<noteq> 0 then
                         let ageInDays = (of_int (now - t * 1000) :: rat) / (1000 * 60 * 60 * 24)
                         in r1\<lparr>account := (account r1)
                                \<lparr>age := (if ageInDays < 30 then NEW
                                          else if ageInDays < 180 then MEDIUM else OLD)\<rparr>\<rparr>
                       else r1)
             else result
         | _ \<Rightarrow> result)
      else if probeName = ''profile_picture'' then
        (if probeResult \<noteq> Nothing
         then push_detectionMethod ''profile_picture_accessible''
                (result\<lparr>account := (account result)\<lparr>hasProfilePicture := True\<rparr>\<rparr>)
         else result)
      else if probeName = ''business_profile'' then
        (if probeResult \<noteq> Nothing
         then push_detectionMethod ''business_account_verified''
                (result\<lparr>account := (account result)\<lparr>isBusinessAccount := True\<rparr>\<rparr>)
         else result)
      else if probeName = ''presence'' then
        (if probeResult \<noteq> Nothing
         then push_detectionMethod ''presence_available''
                (result\<lparr>account := (account result)\<lparr>presenceAvailable := True\<rparr>\<rparr>)
         else result)
      else result)"

text \<open>
  \<open>_executeProbe\<close> is an \<open>async\<close> function: it runs up to an \<open>await\<close>, and goes on when the
  awaited promise settles, while other probes may run in between. A task is a call of
  \<open>_executeProbe\<close> at an \<open>await\<close>: the first call of the probe (with the time the probe
  started and the reply under way), the delay before retry number \<open>retry\<close>, or the call of
  that retry; \<open>t_wake\<close> is the time at which the awaited promise settles. A task ends by
  returning or by raising.
\<close>

datatype task_state =
    AwaitFirst int "payload reply"
  | AwaitDelay nat
  | AwaitRetry nat "payload reply"
  | Finished
  | Threw js_exception

record task =
  t_probe :: probe
  t_state :: task_state
  t_wake :: int

text \<open>From the call of \<open>_executeProbe\<close> to its first \<open>await\<close>.\<close>

definition executeProbe_start :: "probe \<Rightarrow> validation_result \<Rightarrow> int \<Rightarrow> task \<times> validation_result" where
  "executeProbe_start p result now =
     (let r1 = inc_probsExecuted result;
          probeStart = now
      in case executeWithTimeout (fn p 0) (p_timeout p) now of
           (rep, t) \<Rightarrow> (\<lparr>t_probe = p, t_state = AwaitFirst probeStart rep, t_wake = t\<rparr>, r1))"

text \<open>
  The head of the retry loop for the index \<open>retry\<close>: the loop is left when \<open>retry\<close> has
  reached \<open>maxRetries\<close>; otherwise the fallback is logged and the delay awaited.
\<close>

definition retry_loop :: "config \<Rightarrow> task \<Rightarrow> nat \<Rightarrow> validation_result \<Rightarrow> int \<Rightarrow> task \<times> validation_result" where
  "retry_loop cfg tk retry result now =
     (if retry < maxRetries cfg
      then (tk\<lparr>t_state := AwaitDelay retry, t_wake := now + 1000 * (int retry + 1)\<rparr>,
            push_fallbackUsed (name (t_probe tk) @ ''_retry_'' @ string_of_nat (retry + 1)) result)
      else (tk\<lparr>t_state := Finished\<rparr>, result))"

text \<open>From one \<open>await\<close> of \<open>_executeProbe\<close> to the next, at the time \<open>now\<close> of waking up.\<close>

definition executeProbe_resume :: "config \<Rightarrow> task \<Rightarrow> validation_result \<Rightarrow> int \<Rightarrow> task \<times> validation_result" where
  "executeProbe_resume cfg tk result now =
     (let p = t_probe tk
      in case t_state tk of
           AwaitFirst probeStart (Resolve probeResult) \<Rightarrow>
             (tk\<lparr>t_state := Finished\<rparr>,
              push_probeResult
                \<lparr>res_name = name p, res_status = SUCCESS, res_duration = now - probeStart,
                 res_error = None\<rparr>
                (inc_probsSuccessful (processProbeResult (name p) probeResult result now)))
         | AwaitFirst probeStart (Reject err) \<Rightarrow>
             (case recordError (name p) err result now of
                Inl exc \<Rightarrow> (tk\<lparr>t_state := Threw exc\<rparr>, result)
              | Inr r1 \<Rightarrow>
                  let r2 = push_probeResult
                             \<lparr>res_name = name p,
                              res_status = (if isFatalError err then FAILED else TIMEOUT),
                              res_duration = now - probeStart,
                              res_error = js_message err\<rparr> r1
                  in if retryOnFailure cfg \<and> \<not> isFatalError err
                     then retry_loop cfg tk 0 r2 now
                     else (tk\<lparr>t_state := Finished\<rparr>, r2))
         | AwaitDelay retry \<Rightarrow>
             (case executeWithTimeout (fn p (retry + 1)) (p_timeout p) now of
                (rep, t) \<Rightarrow> (tk\<lparr>t_state := AwaitRetry retry rep, t_wake := t\<rparr>, result))
         | AwaitRetry retry (Resolve retryResult) \<Rightarrow>
             (tk\<lparr>t_state := Finished\<rparr>,
              inc_probsSuccessful (processProbeResult (name p) retryResult result now))
         | AwaitRetry retry (Reject retryError) \<Rightarrow>
             (if retry + 1 = maxRetries cfg
              then (case recordError (name p @ ''_final_retry'') retryError result now of
                      Inl exc \<Rightarrow> (tk\<lparr>t_state := Threw exc\<rparr>, result)
                    | Inr r1 \<Rightarrow> retry_loop cfg tk (retry + 1) r1 now)
              else retry_loop cfg tk (retry + 1) result now)
         | Finished \<Rightarrow> (tk, result)
         | Threw exc \<Rightarrow> (tk, result))"

definition pending :: "task \<Rightarrow> bool" where
  "pending tk = (case t_state tk of Finished \<Rightarrow> False | Threw exc \<Rightarrow> False | _ \<Rightarrow> True)"

text \<open>
  The event loop: of the tasks that wait, the one whose promise settles first goes on
  (the first in the list among equals).
\<close>

definition next_task :: "task list \<Rightarrow> nat option" where
  "next_task ts =
     (case filter (\<lambda>i. pending (ts ! i)) [0 ..< length ts] of
        [] \<Rightarrow> None
      | i # rest \<Rightarrow> Some (fold (\<lambda>j best. if t_wake (ts ! j) < t_wake (ts ! best) then j else best) rest i))"

text \<open>The number of steps a task can still make.\<close>

definition task_rank :: "config \<Rightarrow> task \<Rightarrow> nat" where
  "task_rank cfg tk =
     (case t_state tk of
        AwaitFirst probeStart rep \<Rightarrow> 2 * maxRetries cfg + 1
      | AwaitDelay retry \<Rightarrow> 2 * (maxRetries cfg - (retry + 1)) + 2
      | AwaitRetry retry rep \<Rightarrow> 2 * (maxRetries cfg - (retry + 1)) + 1
      | Finished \<Rightarrow> 0
      | Threw exc \<Rightarrow> 0)"

text \<open>
  The tasks run until none waits: the task that is next wakes up when its promise
  settles and runs to its next \<open>await\<close>.
\<close>

function run_tasks :: "config \<Rightarrow> task list \<Rightarrow> validation_result \<Rightarrow> int \<Rightarrow> task list \<times> validation_result \<times> int" where
  "run_tasks cfg ts result now =
     (case next_task ts of
        None \<Rightarrow> (ts, result, now)
      | Some i \<Rightarrow>
          (case executeProbe_resume cfg (ts ! i) result (max now (t_wake (ts ! i))) of
             (tk', r') \<Rightarrow> run_tasks cfg (ts[i := tk']) r' (max now (t_wake (ts ! i)))))"
  by pat_completeness auto
termination
proof (relation "measure (\<lambda>(cfg, ts, result, now). sum_list (map (task_rank cfg) ts))")
  show "wf (measure (\<lambda>(cfg, ts, result, now). sum_list (map (task_rank cfg) ts)))"
    by simp
next
  fix cfg :: config and ts :: "task list" and result :: validation_result and now :: int
    and i :: nat and tk' :: task and r' :: validation_result
  assume nt: "next_task ts = Some i"
    and xe: "(tk', r') = executeProbe_resume cfg (ts ! i) result (max now (t_wake (ts ! i)))"
  define ps where "ps = filter (\<lambda>i. pending (ts ! i)) [0 ..< length ts]"
  have fold_in: "fold (\<lambda>j best. if t_wake (ts ! j) < t_wake (ts ! best) then j else best) js b
                   \<in> insert b (set js)" for js b
    by (induction js arbitrary: b) auto
  from nt obtain j rest where ps: "ps = j # rest"
      and i: "i = fold (\<lambda>j best. if t_wake (ts ! j) < t_wake (ts ! best) then j else best) rest j"
    unfolding next_task_def ps_def[symmetric] by (auto split: list.splits)
  from i fold_in[of rest j] ps have "i \<in> set ps" by auto
  then have il: "i < length ts" and ip: "pending (ts ! i)"
    unfolding ps_def by auto
  define rk where "rk = task_rank cfg"
  have rk_loop: "rk (fst (retry_loop cfg tk r res t)) \<le> 2 * (maxRetries cfg - r)" for tk r res t
    unfolding rk_def
    by (simp add: retry_loop_def task_rank_def)
      (metis Suc_diff_Suc Suc_eq_plus1 diff_diff_left le_refl mult_Suc_right add.commute
         add_2_eq_Suc')
  have rk_end: "rk (tk\<lparr>t_state := Threw exc\<rparr>) = 0" "rk (tk\<lparr>t_state := Finished\<rparr>) = 0" for tk exc
    unfolding rk_def by (simp_all add: task_rank_def)
  have resume_rank: "rk (fst (executeProbe_resume cfg tk res t)) < rk tk"
    if "pending tk" for tk res t
  proof (cases "t_state tk")
    case (AwaitFirst probeStart rep)
    have rk_tk: "rk tk = 2 * maxRetries cfg + 1"
      unfolding rk_def using AwaitFirst by (simp add: task_rank_def)
    show ?thesis
    proof (cases rep)
      case (Resolve probeResult)
      with AwaitFirst have "fst (executeProbe_resume cfg tk res t) = tk\<lparr>t_state := Finished\<rparr>"
        by (simp add: executeProbe_resume_def Let_def)
      then show ?thesis by (simp add: rk_end rk_tk)
    next
      case (Reject err)
      show ?thesis
      proof (cases "recordError (name (t_probe tk)) err res t")
        case (Inl exc)
        with AwaitFirst Reject have "fst (executeProbe_resume cfg tk res t) = tk\<lparr>t_state := Threw exc\<rparr>"
          by (simp add: executeProbe_resume_def Let_def)
        then show ?thesis by (simp add: rk_end rk_tk)
      next
        case (Inr r1)
        with AwaitFirst Reject
        have "(\<exists>r2. fst (executeProbe_resume cfg tk res t) = fst (retry_loop cfg tk 0 r2 t))
              \<or> fst (executeProbe_resume cfg tk res t) = tk\<lparr>t_state := Finished\<rparr>"
          by (simp add: executeProbe_resume_def Let_def) blast
        then show ?thesis
        proof
          assume "\<exists>r2. fst (executeProbe_resume cfg tk res t) = fst (retry_loop cfg tk 0 r2 t)"
          then obtain r2 where e: "fst (executeProbe_resume cfg tk res t) = fst (retry_loop cfg tk 0 r2 t)" ..
          show ?thesis unfolding e rk_tk using rk_loop[of tk 0 r2 t] by simp
        next
          assume "fst (executeProbe_resume cfg tk res t) = tk\<lparr>t_state := Finished\<rparr>"
          then show ?thesis by (simp add: rk_end rk_tk)
        qed
      qed
    qed
  next
    case (AwaitDelay retry)
    then have "t_state (fst (executeProbe_resume cfg tk res t))
                 = AwaitRetry retry (fst (executeWithTimeout (fn (t_probe tk) (retry + 1)) (p_timeout (t_probe tk)) t))"
      by (simp add: executeProbe_resume_def Let_def split: prod.splits)
    with AwaitDelay show ?thesis
      unfolding rk_def by (simp add: task_rank_def)
  next
    case (AwaitRetry retry rep)
    have rk_tk: "rk tk = 2 * (maxRetries cfg - (retry + 1)) + 1"
      unfolding rk_def using AwaitRetry by (simp add: task_rank_def)
    show ?thesis
    proof (cases rep)
      case (Resolve retryResult)
      with AwaitRetry have "fst (executeProbe_resume cfg tk res t) = tk\<lparr>t_state := Finished\<rparr>"
        by (simp add: executeProbe_resume_def Let_def)
      then show ?thesis by (simp add: rk_end rk_tk)
    next
      case (Reject retryError)
      with AwaitRetry
      have "(\<exists>exc. fst (executeProbe_resume cfg tk res t) = tk\<lparr>t_state := Threw exc\<rparr>)
            \<or> (\<exists>r2. fst (executeProbe_resume cfg tk res t) = fst (retry_loop cfg tk (retry + 1) r2 t))"
        by (cases "recordError (name (t_probe tk) @ ''_final_retry'') retryError res t";
            cases "retry + 1 = maxRetries cfg")
           (simp_all add: executeProbe_resume_def Let_def, metis+)
      then show ?thesis
      proof
        assume "\<exists>exc. fst (executeProbe_resume cfg tk res t) = tk\<lparr>t_state := Threw exc\<rparr>"
        then show ?thesis by (auto simp: rk_end rk_tk)
      next
        assume "\<exists>r2. fst (executeProbe_resume cfg tk res t) = fst (retry_loop cfg tk (retry + 1) r2 t)"
        then obtain r2 where e: "fst (executeProbe_resume cfg tk res t) = fst (retry_loop cfg tk (retry + 1) r2 t)" ..
        show ?thesis unfolding e rk_tk using rk_loop[of tk "retry + 1" r2 t] by simp
      qed
    qed
  next
    case Finished
    with that show ?thesis by (simp add: pending_def)
  next
    case (Threw exc)
    with that show ?thesis by (simp add: pending_def)
  qed
  have "fst (executeProbe_resume cfg (ts ! i) result (max now (t_wake (ts ! i)))) = tk'"
    using xe by (metis fst_conv)
  then have step: "task_rank cfg tk' < task_rank cfg (ts ! i)"
    using resume_rank[OF ip, of result "max now (t_wake (ts ! i))"]
    unfolding rk_def by simp
  have upd: "sum_list (map (task_rank cfg) (ts[i := tk']))
               = sum_list (map (task_rank cfg) ts) + task_rank cfg tk' - task_rank cfg (ts ! i)"
    using il by (simp add: map_update sum_list_update)
  have mem: "task_rank cfg (ts ! i) \<le> sum_list (map (task_rank cfg) ts)"
    using il elem_le_sum_list[of i "map (task_rank cfg) ts"] by simp
  from step upd mem
  show "((cfg, ts[i := tk'], r', max now (t_wake (ts ! i))), cfg, ts, result, now)
          \<in> measure (\<lambda>(cfg, ts, result, now). sum_list (map (task_rank cfg) ts))"
    by simp
qed

declare run_tasks.simps [simp del]

text \<open>The exception a task has ended with, if one has.\<close>

definition thrown :: "task list \<Rightarrow> js_exception option" where
  "thrown ts = (case List.map_filter (\<lambda>tk. case t_state tk of Threw exc \<Rightarrow> Some exc | _ \<Rightarrow> None) ts of
                  [] \<Rightarrow> None
                | exc # _ \<Rightarrow> Some exc)"

text \<open>\<open>await this._executeProbe(probe, result)\<close>: the probe alone, from its call to its end.\<close>

definition executeProbe :: "config \<Rightarrow> probe \<Rightarrow> validation_result \<Rightarrow> int \<Rightarrow> validation_result \<times> int \<times> js_exception option" where
  "executeProbe cfg p result now =
     (case executeProbe_start p result now of
        (tk, r1) \<Rightarrow> (case run_tasks cfg [tk] r1 now of (ts', r2, now2) \<Rightarrow> (r2, now2, thrown ts')))"

text \<open>The \<open>for\<close> loop over the probes, one at a time: an exception leaves the loop.\<close>

fun executeProbes_sequential :: "config \<Rightarrow> probe list \<Rightarrow> validation_result \<Rightarrow> int \<Rightarrow> validation_result \<times> int \<times> js_exception option" where
  "executeProbes_sequential cfg [] result now = (result, now, None)"
| "executeProbes_sequential cfg (p # probes) result now =
     (case executeProbe cfg p result now of
        (r, t, Some exc) \<Rightarrow> (r, t, Some exc)
      | (r, t, None) \<Rightarrow> executeProbes_sequential cfg probes r t)"

text \<open>
  \<open>probes.map(probe => this._executeProbe(probe, result))\<close> calls every probe at once, each
  up to its first \<open>await\<close>; \<open>Promise.allSettled\<close> waits for all and ignores what they raise.
\<close>

definition start_all :: "probe list \<Rightarrow> validation_result \<Rightarrow> int \<Rightarrow> task list \<times> validation_result" where
  "start_all probes result now =
     fold (\<lambda>p (ts, r). case executeProbe_start p r now of (tk, r') \<Rightarrow> (ts @ [tk], r'))
       probes ([], result)"

definition executeProbes :: "config \<Rightarrow> connection \<Rightarrow> string \<Rightarrow> validation_result \<Rightarrow> int \<Rightarrow> validation_result \<times> int \<times> js_exception option" where
  "executeProbes cfg conn j result now =
     (let probes = buildProbeList cfg conn j
      in if parallelProbes cfg
         then (case start_all probes result now of
                 (ts, r1) \<Rightarrow> (case run_tasks cfg ts r1 now of (ts', r2, now2) \<Rightarrow> (r2, now2, None)))
         else executeProbes_sequential cfg probes result now)"


section \<open>Analysis\<close>

text \<open>
  \<open>probsSuccessful / probsExecuted\<close>, which is \<open>NaN\<close> (\<open>None\<close>) for \<open>0 / 0\<close>; the numerator
  is never above the denominator.
\<close>

definition probe_successRate :: "validation_result \<Rightarrow> rat option" where
  "probe_successRate result =
     (if probsExecuted (diagnostics result) = 0 then None
      else Some (of_nat (probsSuccessful (diagnostics result))
                 / of_nat (probsExecuted (diagnostics result))))"

definition analyzePatterns :: "validation_result \<Rightarrow> validation_result" where
  "analyzePatterns result =
     (let errorText = join '' '' (map (\<lambda>e. toLowerCase (error e)) (errorDetails (diagnostics result)));
          r1 = (case find (\<lambda>(banType, p).
                             length (filter (\<lambda>kw. str_includes errorText (toLowerCase kw)) (pkeywords p)) > 0)
                      ERROR_PATTERNS of
                  Some (banType, p) \<Rightarrow>
                    push_detectionMethod (''pattern_match_'' @ ban_name banType)
                      (result\<lparr>ban := (ban result)\<lparr>isBanned := True, ban_type := banType\<rparr>\<rparr>)
                | None \<Rightarrow> result)
      in if probsSuccessful (diagnostics r1) = 0 \<and> isRegistered r1
         then (let r2 = r1\<lparr>ban := (ban r1)\<lparr>isBanned := True\<rparr>\<rparr>
               in if ban_type (ban r2) = NONE
                  then push_detectionMethod ''zero_successful_probes''
                         (r2\<lparr>ban := (ban r2)\<lparr>ban_type := VIOLATION\<rparr>\<rparr>)
                  else r2)
         else r1)"

text \<open>Stage 3 of the pipeline: the detector if there is one, the pattern rules otherwise.\<close>

definition patternAnalysis :: "MLPatternDetector option \<Rightarrow> validation_result \<Rightarrow> int \<Rightarrow> validation_result \<times> MLPatternDetector option" where
  "patternAnalysis detector result now =
     (case detector of
        Some d \<Rightarrow>
          (case analyze d (errorDetails (diagnostics result)) (probe_successRate result) now of
             (mlPrediction, d') \<Rightarrow>
               (if pr_type mlPrediction \<noteq> NONE
                then push_detectionMethod ''ml_pattern_detection''
                       (result\<lparr>ban := (ban result)\<lparr>isBanned := True, ban_type := pr_type mlPrediction,
                                                   mlConfidence := Some (pr_confidence mlPrediction)\<rparr>\<rparr>)
                else result,
                Some d'))
      | None \<Rightarrow> (analyzePatterns result, None))"

record review_config =
  rc_available :: bool
  rc_type :: ReviewType
  rc_time :: "string option"
  rc_steps :: "string list"

definition reviewConfig :: "BanType \<Rightarrow> review_config option" where
  "reviewConfig b =
     (case b of
        SPAM \<Rightarrow> Some \<lparr>rc_available = True, rc_type = SELF_APPEAL, rc_time = Some ''24-48 hours'',
                       rc_steps = [''Submit self-appeal through WhatsApp app'',
                                   ''Avoid bulk messaging for one week'',
                                   ''Review WhatsApp business policies'']\<rparr>
      | VIOLATION \<Rightarrow> Some \<lparr>rc_available = True, rc_type = SUPPORT_REQUIRED, rc_time = Some ''3-7 days'',
                            rc_steps = [''Contact WhatsApp support directly'',
                                        ''Prepare identity verification'',
                                        ''Review terms of service violations'']\<rparr>
      | PERMANENT \<Rightarrow> Some \<lparr>rc_available = False, rc_type = REVIEW_NONE, rc_time = None,
                            rc_steps = [''Ban is permanent - Consider new number'',
                                        ''Ensure compliance before new account'']\<rparr>
      | NONE \<Rightarrow> None)"

definition analyzeReviewOptions :: "validation_result \<Rightarrow> validation_result" where
  "analyzeReviewOptions result =
     (if \<not> isBanned (ban result)
      then result\<lparr>recommendations := recommendations result
                     @ [''Account is functioning normally'', ''Maintain natural usage patterns'']\<rparr>
      else (case reviewConfig (ban_type (ban result)) of
              Some cfg \<Rightarrow>
                result\<lparr>review := (review result)\<lparr>available := rc_available cfg, review_type := rc_type cfg,
                                                   estimatedTime := rc_time cfg\<rparr>,
                       recommendations := recommendations result @ rc_steps cfg\<rparr>
            | None \<Rightarrow> result))"

definition finalizeResult :: "validation_result \<Rightarrow> int \<Rightarrow> int \<Rightarrow> validation_result" where
  "finalizeResult result startTime now =
     result\<lparr>diagnostics := (diagnostics result)\<lparr>responseTime := Some (now - startTime)\<rparr>,
            summary := (if isRegistered result
                        then (case ban_type (ban result) of
                                NONE \<Rightarrow> ''Active and verified''
                              | SPAM \<Rightarrow> ''Spam restrictions detected''
                              | VIOLATION \<Rightarrow> ''Policy violation detected''
                              | PERMANENT \<Rightarrow> ''Permanent ban confirmed'')
                        else ''Not registered or permanently banned'')\<rparr>"


section \<open>Pipeline\<close>

text \<open>
  \<open>_executePipeline\<close> changes the result object in place: what it has written stays when
  it raises. The result is the result object, the validator (whose detector keeps a
  history), the time, and the exception if one was raised.
\<close>

definition executePipeline :: "validator \<Rightarrow> connection \<Rightarrow> string \<Rightarrow> validation_result \<Rightarrow> int \<Rightarrow> validation_result \<times> validator \<times> int \<times> js_exception option" where
  "executePipeline v conn j result now =
     (case checkRegistration (v_config v) conn j result now of
        (r1, t1, Some exc) \<Rightarrow> (r1, v, t1, Some exc)
      | (r1, t1, None) \<Rightarrow>
          if \<not> isRegistered r1
          then (finalizeResult
                  (r1\<lparr>ban := (ban r1)\<lparr>isBanned := True, ban_type := PERMANENT\<rparr>,
                      summary := ''Not registered or permanently banned''\<rparr>) t1 t1,
                v, t1, None)
          else (case executeProbes (v_config v) conn j r1 t1 of
                  (r2, t2, Some exc) \<Rightarrow> (r2, v, t2, Some exc)
                | (r2, t2, None) \<Rightarrow>
                    (case patternAnalysis (v_mlDetector v) r2 t2 of
                       (r3, d') \<Rightarrow>
                         (finalizeResult (analyzeReviewOptions r3) t2 t2,
                          v\<lparr>v_mlDetector := d'\<rparr>, t2, None))))"

definition normalizeJID :: "string \<Rightarrow> string" where
  "normalizeJID phoneNumber = filter is_digit phoneNumber @ ''@s.whatsapp.net''"

definition cacheKey :: "string \<Rightarrow> string" where
  "cacheKey phoneNumber = ''validate:'' @ phoneNumber"

record validate_options =
  skipCache :: bool

text \<open>The rate limiting of \<open>validate\<close>: the limiter after \<open>acquire\<close> and the time it returns.\<close>

definition rate_limiting :: "validator \<Rightarrow> int \<Rightarrow> nat list \<Rightarrow> validator \<times> int" where
  "rate_limiting v now late =
     (case v_rateLimiter v of
        None \<Rightarrow> (v, now)
      | Some rl \<Rightarrow> (case acquire rl now late of (rl', t) \<Rightarrow> (v\<lparr>v_rateLimiter := Some rl'\<rparr>, t)))"

text \<open>The cache check of \<open>validate\<close>: the cached result if there is a fresh one.\<close>

definition check_cache :: "validator \<Rightarrow> string \<Rightarrow> validate_options \<Rightarrow> int \<Rightarrow> validation_result option \<times> validator" where
  "check_cache v phoneNumber options now =
     (case v_cache v of
        None \<Rightarrow> (None, v)
      | Some c \<Rightarrow>
          if \<not> skipCache options
          then (case cache_get c (cacheKey phoneNumber) now of
                  (cached, c') \<Rightarrow> (cached, v\<lparr>v_cache := Some c'\<rparr>))
          else (None, v))"

text \<open>
  \<open>validate\<close> called at time \<open>now\<close>, with the connection behaving as \<open>conn\<close> and the timer
  of the rate limiter late by \<open>late\<close>: the result object, the validator afterwards and
  the time of the return.
\<close>

definition validate :: "validator \<Rightarrow> connection \<Rightarrow> nat list \<Rightarrow> string \<Rightarrow> validate_options \<Rightarrow> int \<Rightarrow> validation_result \<times> validator \<times> int" where
  "validate v conn late phoneNumber options now =
     (case rate_limiting v now late of
        (v1, t1) \<Rightarrow>
          (case check_cache v1 phoneNumber options t1 of
             (Some cached, v2) \<Rightarrow> (cached, v2, t1)
           | (None, v2) \<Rightarrow>
               (let j = normalizeJID phoneNumber;
                    result = createResultObject phoneNumber j t1
                in case executePipeline v2 conn j result t1 of
                     (r, v3, t2, None) \<Rightarrow>
                       (r,
                        v3\<lparr>v_cache := map_option (\<lambda>c. cache_set c (cacheKey phoneNumber) r t2) (v_cache v3)\<rparr>,
                        t2)
                   | (r, v3, t2, Some exc) \<Rightarrow>
                       (push_errorDetail
                          \<lparr>stage = ''critical'', error = exception_message exc, code = ''FATAL'',
                           timestamp = None\<rparr>
                          (r\<lparr>summary := ''Critical validation error''\<rparr>),
                        v3, t2))))"


section \<open>Notions used in the statements\<close>

text \<open>The number of keywords of a pattern found in the error text, and of error codes found among its keywords.\<close>

definition keyword_hits :: "features \<Rightarrow> pattern \<Rightarrow> nat" where
  "keyword_hits f p = length (filter (str_includes (errorText f)) (pkeywords p))"

definition code_hits :: "features \<Rightarrow> pattern \<Rightarrow> nat" where
  "code_hits f p = length (filter (\<lambda>c. toLowerCase c \<in> set (pkeywords p)) (errorCodes f))"

text \<open>No keyword of any pattern occurs in the error text; no error code is a keyword of any pattern.\<close>

definition no_keyword_match :: "features \<Rightarrow> bool" where
  "no_keyword_match f =
     list_all (\<lambda>(banType, p). list_all (\<lambda>k. \<not> str_includes (errorText f) k) (pkeywords p)) ERROR_PATTERNS"

definition no_code_match :: "features \<Rightarrow> bool" where
  "no_code_match f =
     list_all (\<lambda>(banType, p). list_all (\<lambda>c. toLowerCase c \<notin> set (pkeywords p)) (errorCodes f)) ERROR_PATTERNS"

text \<open>The prediction that carries no signal.\<close>

definition no_signal :: prediction where
  "no_signal = \<lparr>pr_type = NONE, pr_score = None, pr_confidence = 5 / 10, pr_matchCount = None\<rparr>"

text \<open>Error evidence used as examples.\<close>

definition mixed_evidence :: "error_detail list" where
  "mixed_evidence =
     [\<lparr>stage = ''status'',
       error = ''spam rate limit too many 429 rate_limit permanently terminated account_deleted'',
       code = ''429'', timestamp = Some 1\<rparr>]"

definition permanent_evidence :: "error_detail list" where
  "permanent_evidence =
     [\<lparr>stage = ''status'', error = ''Account permanently terminated account_deleted'',
       code = ''UNKNOWN'', timestamp = Some 1\<rparr>]"

definition repeated_evidence :: "error_detail list" where
  "repeated_evidence =
     [\<lparr>stage = ''status'', error = ''server error 500'', code = ''500'', timestamp = Some 1\<rparr>,
      \<lparr>stage = ''status_final_retry'', error = ''server error 500'', code = ''500'',
       timestamp = Some 2\<rparr>,
      \<lparr>stage = ''profile_picture'', error = ''Operation timeout'', code = ''TIMEOUT'',
       timestamp = Some 3\<rparr>,
      \<lparr>stage = ''profile_picture_final_retry'', error = ''Operation timeout'', code = ''TIMEOUT'',
       timestamp = Some 4\<rparr>,
      \<lparr>stage = ''business_profile'', error = ''connection closed'', code = ''UNKNOWN'',
       timestamp = Some 5\<rparr>,
      \<lparr>stage = ''business_profile_final_retry'', error = ''connection closed'', code = ''UNKNOWN'',
       timestamp = Some 6\<rparr>]"

text \<open>The verdict of a result, and the invariant of the results: no more successes than
  probes, and a result that is not banned has no ban type and no review.\<close>

definition verdict :: "validation_result \<Rightarrow> bool \<times> BanType \<times> bool" where
  "verdict r = (isBanned (ban r), ban_type (ban r), available (review r))"

definition result_ok :: "validation_result \<Rightarrow> bool" where
  "result_ok r =
     (probsSuccessful (diagnostics r) \<le> probsExecuted (diagnostics r)
      \<and> (\<not> isBanned (ban r) \<longrightarrow> \<not> available (review r) \<and> ban_type (ban r) = NONE))"

definition cache_ok :: "validator \<Rightarrow> bool" where
  "cache_ok v = (case v_cache v of None \<Rightarrow> True
                 | Some c \<Rightarrow> list_all (\<lambda>(key, entry). result_ok (data entry)) (cache c))"

text \<open>Connections used as examples: every call answers after 100 ms.\<close>

definition answering :: "bool list option reply \<Rightarrow> payload reply \<Rightarrow> connection" where
  "answering registration probe_reply =
     \<lparr>onWhatsApp = (\<lambda>j. (100, registration)),
      fetchStatus = (\<lambda>j n. (100, probe_reply)),
      profilePictureUrl = (\<lambda>j n. (100, probe_reply)),
      getBusinessProfile = (\<lambda>j n. (100, probe_reply)),
      presenceSubscribe = (\<lambda>j n. (100, probe_reply))\<rparr>"

text \<open>What probing and recording errors leave alone: the verdict and the registration;
  they only add error details, none of which has the code of the top-level handler.\<close>

definition frame :: "validation_result \<Rightarrow> validation_result \<Rightarrow> bool" where
  "frame r r' =
     (verdict r' = verdict r \<and> isRegistered r' = isRegistered r
      \<and> (\<exists>es. errorDetails (diagnostics r') = errorDetails (diagnostics r) @ es
                \<and> list_all (\<lambda>e. code e \<noteq> ''FATAL'') es))"

text \<open>Between \<open>r\<close> and \<open>r'\<close> at most \<open>n\<close> probes were called, and no more succeeded than
  were called.\<close>

definition probed :: "validation_result \<Rightarrow> validation_result \<Rightarrow> nat \<Rightarrow> bool" where
  "probed r r' n =
     (probsExecuted (diagnostics r) \<le> probsExecuted (diagnostics r')
      \<and> probsExecuted (diagnostics r') \<le> probsExecuted (diagnostics r) + n
      \<and> probsSuccessful (diagnostics r) \<le> probsSuccessful (diagnostics r')
      \<and> probsSuccessful (diagnostics r') + probsExecuted (diagnostics r)
           \<le> probsSuccessful (diagnostics r) + probsExecuted (diagnostics r'))"

text \<open>The registration check reports that the account exists.\<close>

definition registered_by :: "bool list option reply \<Rightarrow> bool" where
  "registered_by rep = (case rep of Resolve (Some (e # rest)) \<Rightarrow> e | _ \<Rightarrow> False)"

text \<open>
  The parts of a call of \<open>validate\<close>: the cached result it returns, if the cache has one;
  the reply of the connection to the registration check; and the run of the pipeline if
  the cache has none.
\<close>

definition cached_result :: "validator \<Rightarrow> nat list \<Rightarrow> string \<Rightarrow> validate_options \<Rightarrow> int \<Rightarrow> validation_result option" where
  "cached_result v late phoneNumber options now =
     (case rate_limiting v now late of (v1, t1) \<Rightarrow> fst (check_cache v1 phoneNumber options t1))"

definition registration_reply :: "validator \<Rightarrow> connection \<Rightarrow> nat list \<Rightarrow> string \<Rightarrow> int \<Rightarrow> bool list option reply" where
  "registration_reply v conn late phoneNumber now =
     (case rate_limiting v now late of
        (v1, t1) \<Rightarrow> fst (executeWithTimeout (onWhatsApp conn (normalizeJID phoneNumber))
                            (timeout (v_config v)) t1))"

definition pipeline_run :: "validator \<Rightarrow> connection \<Rightarrow> nat list \<Rightarrow> string \<Rightarrow> validate_options \<Rightarrow> int \<Rightarrow> validation_result \<times> validator \<times> int \<times> js_exception option" where
  "pipeline_run v conn late phoneNumber options now =
     (case rate_limiting v now late of
        (v1, t1) \<Rightarrow>
          executePipeline (snd (check_cache v1 phoneNumber options t1)) conn (normalizeJID phoneNumber)
            (createResultObject phoneNumber (normalizeJID phoneNumber) t1) t1)"

text \<open>Calls of \<open>validate\<close> on a validator, one after the other: each call has its
  connection, the lateness of the timers, the phone number, the options and the time of
  the call. The results are listed in the order of the calls.\<close>

fun validate_calls :: "validator \<Rightarrow> (connection \<times> nat list \<times> string \<times> validate_options \<times> int) list \<Rightarrow> validation_result list" where
  "validate_calls v [] = []"
| "validate_calls v ((conn, late, phoneNumber, options, now) # calls) =
     (case validate v conn late phoneNumber options now of
        (r, v', t) \<Rightarrow> r # validate_calls v' calls)"


section \<open>The classifier\<close>

subsection \<open>Scores\<close>

lemma hits_fold:
  "fold (\<lambda>k (s, m). if P k then (s + w, m + 1) else (s, m)) ks (s0, m0) =
     (s0 + w * of_nat (length (filter P ks)), m0 + length (filter P ks))"
  for s0 w :: rat and m0 :: nat
  by (induction ks arbitrary: s0 m0) (simp_all add: algebra_simps)

lemma keyword_matching_eq:
  "keyword_matching f p (s, m) = (s + weight p * of_nat (keyword_hits f p), m + keyword_hits f p)"
  unfolding keyword_matching_def keyword_hits_def by (rule hits_fold)

lemma code_matching_eq:
  "code_matching f p (s, m) =
     (s + weight p * (15 / 10) * of_nat (code_hits f p), m + code_hits f p)"
  unfolding code_matching_def code_hits_def by (rule hits_fold)

lemma pattern_score_raw:
  "raw (pattern_score f p) =
     weight p * of_nat (keyword_hits f p) + weight p * (15 / 10) * of_nat (code_hits f p)
     + (if successRate f < 3 / 10 then 5 / 10 else 0)
     + (if length (failurePatterns f) > 2 then (3 / 10) * of_nat (length (failurePatterns f)) else 0)"
  by (simp add: pattern_score_def keyword_matching_eq code_matching_eq Let_def)

lemma pattern_score_fields:
  "normalized (pattern_score f p) = min (raw (pattern_score f p) / 5) 1"
  "sd_matchCount (pattern_score f p) = keyword_hits f p + code_hits f p"
  "sd_confidence (pattern_score f p) = (if keyword_hits f p + code_hits f p > 0 then confidence p else 0)"
  by (simp_all add: pattern_score_def keyword_matching_eq code_matching_eq Let_def)

lemma calculateScores_list:
  "calculateScores f =
     [(SPAM, pattern_score f (snd (ERROR_PATTERNS ! 0))),
      (VIOLATION, pattern_score f (snd (ERROR_PATTERNS ! 1))),
      (PERMANENT, pattern_score f (snd (ERROR_PATTERNS ! 2)))]"
  by (simp add: calculateScores_def ERROR_PATTERNS_def)

subsection \<open>The best match\<close>

lemma bestMatch_fold:
  "(fold bestMatch_step scores best0 = best0 \<and> (\<forall>x \<in> set scores. normalized (snd x) \<le> bm_score best0))
   \<or> (\<exists>x \<in> set scores.
         fold bestMatch_step scores best0 =
           \<lparr>bm_type = fst x, bm_score = normalized (snd x), bm_confidence = sd_confidence (snd x),
            bm_matchCount = Some (sd_matchCount (snd x))\<rparr>
         \<and> bm_score best0 < normalized (snd x)
         \<and> (\<forall>y \<in> set scores. normalized (snd y) \<le> normalized (snd x)))"
proof (induction scores arbitrary: best0)
  case Nil
  then show ?case by simp
next
  case (Cons x scores)
  let ?pick = "\<lambda>z. \<lparr>bm_type = fst z, bm_score = normalized (snd z),
                      bm_confidence = sd_confidence (snd z),
                      bm_matchCount = Some (sd_matchCount (snd z))\<rparr>"
  let ?goal = "\<lambda>b. \<exists>z \<in> set (x # scores). fold bestMatch_step (x # scores) b = ?pick z
          \<and> bm_score b < normalized (snd z)
          \<and> (\<forall>y \<in> set (x # scores). normalized (snd y) \<le> normalized (snd z))"
  show ?case
  proof (cases "normalized (snd x) > bm_score best0")
    case True
    then have step: "bestMatch_step x best0 = ?pick x"
      by (cases x) (simp add: bestMatch_step_def)
    from Cons.IH[of "?pick x"]
    consider (keep) "fold bestMatch_step scores (?pick x) = ?pick x"
        "\<forall>y \<in> set scores. normalized (snd y) \<le> normalized (snd x)"
      | (later) z where "z \<in> set scores" "fold bestMatch_step scores (?pick x) = ?pick z"
        "normalized (snd x) < normalized (snd z)"
        "\<forall>y \<in> set scores. normalized (snd y) \<le> normalized (snd z)"
      by auto
    then show ?thesis
    proof cases
      case keep
      have "?goal best0"
        using keep True step by (intro bexI[of _ x]) auto
      then show ?thesis ..
    next
      case later
      have "?goal best0"
        using later True step by (intro bexI[of _ z]) auto
      then show ?thesis ..
    qed
  next
    case False
    then have step: "bestMatch_step x best0 = best0"
      by (cases x) (simp add: bestMatch_step_def)
    from Cons.IH[of best0]
    consider (keep) "fold bestMatch_step scores best0 = best0"
        "\<forall>y \<in> set scores. normalized (snd y) \<le> bm_score best0"
      | (later) z where "z \<in> set scores" "fold bestMatch_step scores best0 = ?pick z"
        "bm_score best0 < normalized (snd z)"
        "\<forall>y \<in> set scores. normalized (snd y) \<le> normalized (snd z)"
      by blast
    then show ?thesis
    proof cases
      case keep
      then show ?thesis using False step by auto
    next
      case later
      have "?goal best0"
        using later False step by (intro bexI[of _ z]) auto
      then show ?thesis ..
    qed
  qed
qed

lemma makePrediction_none:
  assumes "\<forall>x \<in> set scores. normalized (snd x) < 3 / 10"
  shows "makePrediction scores = no_signal"
proof -
  let ?b0 = "\<lparr>bm_type = NONE, bm_score = 0, bm_confidence = 0, bm_matchCount = None\<rparr>"
  have "bm_score (fold bestMatch_step scores ?b0) < 3 / 10"
    using bestMatch_fold[of scores ?b0] assms by auto
  then show ?thesis by (simp add: makePrediction_def no_signal_def)
qed

lemma makePrediction_some:
  assumes "\<exists>x \<in> set scores. normalized (snd x) \<ge> 3 / 10"
  shows "\<exists>x \<in> set scores.
           makePrediction scores =
             \<lparr>pr_type = fst x, pr_score = Some (normalized (snd x)),
              pr_confidence = sd_confidence (snd x), pr_matchCount = Some (sd_matchCount (snd x))\<rparr>
           \<and> (\<forall>y \<in> set scores. normalized (snd y) \<le> normalized (snd x))"
proof -
  let ?b0 = "\<lparr>bm_type = NONE, bm_score = 0, bm_confidence = 0, bm_matchCount = None\<rparr>"
  have "\<not> (\<forall>x \<in> set scores. normalized (snd x) \<le> bm_score ?b0)"
    using assms by fastforce
  with bestMatch_fold[of scores ?b0]
  obtain z where m: "z \<in> set scores"
      "fold bestMatch_step scores ?b0 =
         \<lparr>bm_type = fst z, bm_score = normalized (snd z), bm_confidence = sd_confidence (snd z),
          bm_matchCount = Some (sd_matchCount (snd z))\<rparr>"
      "\<forall>y \<in> set scores. normalized (snd y) \<le> normalized (snd z)" by blast
  from assms m(3) have "3 / 10 \<le> normalized (snd z)" by fastforce
  with m show ?thesis
    by (intro bexI[of _ z]) (auto simp: makePrediction_def)
qed

lemma fst_analyze:
  "fst (analyze d errs rate now) = makePrediction (calculateScores (extractFeatures errs rate))"
  by (simp add: analyze_def Let_def)

subsection \<open>Evidence of a permanent ban\<close>

lemma str_includes_trans:
  "str_includes s k \<Longrightarrow> sublist k' k \<Longrightarrow> str_includes s k'"
  unfolding str_includes_def by (rule sublist_order.order_trans)

lemma phrase_keywords:
  "sublist ''permanently'' ''permanently terminated account_deleted''"
  "sublist ''terminated'' ''permanently terminated account_deleted''"
  "sublist ''deleted'' ''permanently terminated account_deleted''"
  "sublist ''account_deleted'' ''permanently terminated account_deleted''"
  by code_simp+

lemma permanent_hits:
  assumes "str_includes (errorText f) ''permanently terminated account_deleted''"
  shows "4 \<le> keyword_hits f (snd (ERROR_PATTERNS ! 2))"
  using phrase_keywords[THEN str_includes_trans[OF assms]]
  by (simp add: keyword_hits_def ERROR_PATTERNS_def)

lemma permanent_normalized:
  assumes "str_includes (errorText f) ''permanently terminated account_deleted''"
  shows "normalized (pattern_score f (snd (ERROR_PATTERNS ! 2))) = 1"
proof -
  let ?p = "snd (ERROR_PATTERNS ! 2)"
  have w: "weight ?p = 15 / 10" by (simp add: ERROR_PATTERNS_def)
  have "(4::rat) \<le> of_nat (keyword_hits f ?p)"
    using permanent_hits[OF assms] by (metis of_nat_le_iff of_nat_numeral)
  then have "6 \<le> weight ?p * of_nat (keyword_hits f ?p)"
    unfolding w by simp
  moreover have "0 \<le> weight ?p * (15 / 10) * of_nat (code_hits f ?p)"
    unfolding w by simp
  ultimately have "6 \<le> raw (pattern_score f ?p)"
    unfolding pattern_score_raw by (simp add: add_nonneg_nonneg)
  then show ?thesis by (simp add: pattern_score_fields(1))
qed

lemma makePrediction_three:
  assumes "normalized s3 = 1" and "normalized s1 \<le> 1" and "normalized s2 \<le> 1"
  shows "makePrediction [(SPAM, s1), (VIOLATION, s2), (PERMANENT, s3)] =
           (if normalized s1 = 1
            then \<lparr>pr_type = SPAM, pr_score = Some 1, pr_confidence = sd_confidence s1,
                  pr_matchCount = Some (sd_matchCount s1)\<rparr>
            else if normalized s2 = 1
            then \<lparr>pr_type = VIOLATION, pr_score = Some 1, pr_confidence = sd_confidence s2,
                  pr_matchCount = Some (sd_matchCount s2)\<rparr>
            else \<lparr>pr_type = PERMANENT, pr_score = Some 1, pr_confidence = sd_confidence s3,
                  pr_matchCount = Some (sd_matchCount s3)\<rparr>)"
  using assms by (auto simp: makePrediction_def bestMatch_step_def)

text \<open>
  C5, as the code has it. The candidates are compared by their normalized score, which is
  capped at 1, and a later candidate replaces an earlier one only when it is strictly
  better; Spam and Violation are enumerated before Permanent. For error evidence whose
  lowercase text contains "permanently terminated account_deleted", with success rate 0:
  \<open>analyze\<close> returns Permanent, with confidence 0.95 (at least 0.85), when neither Spam nor
  Violation reaches the normalized score 1; it returns Spam when Spam reaches 1; and it
  returns Violation when Violation reaches 1 and Spam does not.
\<close>

theorem analyze_permanent_phrase:
  assumes "str_includes (errorText (extractFeatures errs rate)) ''permanently terminated account_deleted''"
    and "rate = Some 0"
  shows "((\<forall>x \<in> set (calculateScores (extractFeatures errs rate)).
             fst x \<noteq> PERMANENT \<longrightarrow> normalized (snd x) < 1)
          \<longrightarrow> pr_type (fst (analyze d errs rate now)) = PERMANENT
              \<and> 85 / 100 \<le> pr_confidence (fst (analyze d errs rate now))
              \<and> pr_confidence (fst (analyze d errs rate now)) = 95 / 100)
    \<and> ((\<exists>x \<in> set (calculateScores (extractFeatures errs rate)).
             fst x = SPAM \<and> normalized (snd x) = 1)
          \<longrightarrow> pr_type (fst (analyze d errs rate now)) = SPAM)
    \<and> ((\<forall>x \<in> set (calculateScores (extractFeatures errs rate)).
             fst x = SPAM \<longrightarrow> normalized (snd x) < 1)
         \<and> (\<exists>x \<in> set (calculateScores (extractFeatures errs rate)).
             fst x = VIOLATION \<and> normalized (snd x) = 1)
          \<longrightarrow> pr_type (fst (analyze d errs rate now)) = VIOLATION)"
proof -
  let ?f = "extractFeatures errs rate"
  let ?s1 = "pattern_score ?f (snd (ERROR_PATTERNS ! 0))"
  let ?s2 = "pattern_score ?f (snd (ERROR_PATTERNS ! 1))"
  let ?s3 = "pattern_score ?f (snd (ERROR_PATTERNS ! 2))"
  have one: "normalized ?s3 = 1"
    by (rule permanent_normalized[OF assms(1)])
  have le: "normalized ?s1 \<le> 1" "normalized ?s2 \<le> 1"
    by (simp_all add: pattern_score_fields(1))
  have "0 < keyword_hits ?f (snd (ERROR_PATTERNS ! 2))"
    using permanent_hits[OF assms(1)] by simp
  then have conf: "sd_confidence ?s3 = 95 / 100"
    by (simp add: pattern_score_fields(3) ERROR_PATTERNS_def)
  have p: "fst (analyze d errs rate now) =
           (if normalized ?s1 = 1
            then \<lparr>pr_type = SPAM, pr_score = Some 1, pr_confidence = sd_confidence ?s1,
                  pr_matchCount = Some (sd_matchCount ?s1)\<rparr>
            else if normalized ?s2 = 1
            then \<lparr>pr_type = VIOLATION, pr_score = Some 1, pr_confidence = sd_confidence ?s2,
                  pr_matchCount = Some (sd_matchCount ?s2)\<rparr>
            else \<lparr>pr_type = PERMANENT, pr_score = Some 1, pr_confidence = sd_confidence ?s3,
                  pr_matchCount = Some (sd_matchCount ?s3)\<rparr>)"
    unfolding fst_analyze calculateScores_list
    by (rule makePrediction_three[OF one le])
  show ?thesis
    unfolding p calculateScores_list using conf by auto
qed

theorem analyze_permanent_phrase_witness:
  "str_includes (errorText (extractFeatures permanent_evidence (Some 0)))
     ''permanently terminated account_deleted''
   \<and> pr_type (fst (analyze new_MLPatternDetector permanent_evidence (Some 0) 0)) = PERMANENT
   \<and> pr_confidence (fst (analyze new_MLPatternDetector permanent_evidence (Some 0) 0)) = 95 / 100"
proof -
  have h1: "str_includes (errorText (extractFeatures permanent_evidence (Some 0)))
              ''permanently terminated account_deleted''"
    by code_simp
  have h3: "\<forall>x \<in> set (calculateScores (extractFeatures permanent_evidence (Some 0))).
              fst x \<noteq> PERMANENT \<longrightarrow> normalized (snd x) < 1"
    by code_simp
  show ?thesis
    using h1 h3 analyze_permanent_phrase[OF h1 refl, of new_MLPatternDetector 0] by simp
qed

text \<open>
  C5 as stated fails: evidence that contains the phrase and five Spam keywords, with
  success rate 0, is classified as Spam, since both candidates reach the normalized score 1
  and Spam is enumerated first.
\<close>

theorem analyze_permanent_counterexample:
  "str_includes (errorText (extractFeatures mixed_evidence (Some 0)))
     ''permanently terminated account_deleted''
   \<and> pr_type (fst (analyze new_MLPatternDetector mixed_evidence (Some 0) 0)) = SPAM"
  by code_simp

subsection \<open>Evidence without a keyword\<close>

lemma no_match_hits:
  assumes "no_keyword_match f" and "no_code_match f" and "(b, p) \<in> set ERROR_PATTERNS"
  shows "keyword_hits f p = 0" and "code_hits f p = 0"
proof -
  from assms(1,3) have "\<forall>k \<in> set (pkeywords p). \<not> str_includes (errorText f) k"
    unfolding no_keyword_match_def list_all_iff by fastforce
  then show "keyword_hits f p = 0"
    by (simp add: keyword_hits_def filter_empty_conv)
  from assms(2,3) have "\<forall>c \<in> set (errorCodes f). toLowerCase c \<notin> set (pkeywords p)"
    unfolding no_code_match_def list_all_iff by fastforce
  then show "code_hits f p = 0"
    by (simp add: code_hits_def filter_empty_conv)
qed

lemma no_match_normalized:
  assumes "no_keyword_match f" and "no_code_match f" and "(b, p) \<in> set ERROR_PATTERNS"
    and "length (failurePatterns f) \<le> 3"
  shows "normalized (pattern_score f p) < 3 / 10"
proof -
  have "(of_nat (length (failurePatterns f)) :: rat) \<le> 3"
    using assms(4) by (metis of_nat_le_iff of_nat_numeral)
  then have "raw (pattern_score f p) \<le> 14 / 10"
    unfolding pattern_score_raw no_match_hits[OF assms(1-3)] by simp
  then show ?thesis by (simp add: pattern_score_fields(1))
qed

text \<open>
  C8, as the code has it. Every identified failure pattern beyond the second adds to the
  score of every candidate. For error evidence in which no pattern keyword occurs in the
  lowercase error text and no extracted error code is in a keyword set, with the default
  success rate, \<open>analyze\<close> returns kind None with confidence 0.5 provided that at most three
  failure patterns are identified.
\<close>

theorem analyze_no_match:
  assumes "no_keyword_match (extractFeatures errs None)"
    and "no_code_match (extractFeatures errs None)"
    and "length (identifyFailurePatterns errs) \<le> 3"
  shows "fst (analyze d errs None now) = no_signal"
proof -
  let ?f = "extractFeatures errs None"
  have fp: "length (failurePatterns ?f) \<le> 3"
    using assms(3) by (simp add: extractFeatures_def)
  have "\<forall>x \<in> set (calculateScores ?f). normalized (snd x) < 3 / 10"
    using no_match_normalized[OF assms(1,2) _ fp]
    by (auto simp: calculateScores_def)
  then show ?thesis
    unfolding fst_analyze by (rule makePrediction_none)
qed

theorem analyze_no_match_witness:
  "no_keyword_match (extractFeatures (take 5 repeated_evidence) None)
   \<and> no_code_match (extractFeatures (take 5 repeated_evidence) None)
   \<and> length (identifyFailurePatterns (take 5 repeated_evidence)) \<le> 3
   \<and> pr_type (fst (analyze new_MLPatternDetector (take 5 repeated_evidence) None 0)) = NONE
   \<and> pr_confidence (fst (analyze new_MLPatternDetector (take 5 repeated_evidence) None 0)) = 5 / 10"
proof -
  have h1: "no_keyword_match (extractFeatures (take 5 repeated_evidence) None)"
    by code_simp
  have h2: "no_code_match (extractFeatures (take 5 repeated_evidence) None)"
    by code_simp
  have h3: "length (identifyFailurePatterns (take 5 repeated_evidence)) \<le> 3"
    by code_simp
  show ?thesis
    using h1 h2 h3 analyze_no_match[OF h1 h2 h3, of new_MLPatternDetector 0]
    by (simp add: no_signal_def)
qed

text \<open>
  C8 as stated fails: six errors without any keyword, with three error codes that each
  occur twice, make four failure patterns; with the default success rate every candidate
  scores 0.5 + 0.3 * 4 = 1.7, normalized 0.34, and \<open>analyze\<close> returns Spam with confidence 0.
\<close>

theorem analyze_no_match_counterexample:
  "no_keyword_match (extractFeatures repeated_evidence None)
   \<and> no_code_match (extractFeatures repeated_evidence None)
   \<and> pr_type (fst (analyze new_MLPatternDetector repeated_evidence None 0)) = SPAM
   \<and> pr_confidence (fst (analyze new_MLPatternDetector repeated_evidence None 0)) = 0"
  by code_simp


section \<open>The rate limiter\<close>

lemma filter_Cons_holds:
  "filter P xs = x # rest \<Longrightarrow> P x"
  by (auto dest: filter_eq_ConsD)

lemma acquire_pass_push:
  assumes "acquire_pass rl now = (rl', None)"
  shows "rl' = rl\<lparr>requests := filter (\<lambda>time. now - time < windowMs rl) (requests rl) @ [now]\<rparr>"
    and "1 \<le> maxRequests rl \<Longrightarrow>
           int (length (filter (\<lambda>time. now - time < windowMs rl) (requests rl))) < maxRequests rl"
  using assms
  by (auto simp: acquire_pass_def Let_def split: if_splits list.splits
           dest: filter_Cons_holds)

lemma acquire_pass_wait:
  assumes "acquire_pass rl now = (rl', Some waitTime)"
  shows "rl' = rl\<lparr>requests := filter (\<lambda>time. now - time < windowMs rl) (requests rl)\<rparr>"
    and "maxRequests rl \<le> int (length (filter (\<lambda>time. now - time < windowMs rl) (requests rl)))"
    and "\<exists>rest. filter (\<lambda>time. now - time < windowMs rl) (requests rl)
                  = (now + waitTime - windowMs rl) # rest"
    and "0 < waitTime"
  using assms
  by (auto simp: acquire_pass_def Let_def split: if_splits list.splits)

lemma acquire_pass_cases:
  obtains (push) rl' where "acquire_pass rl now = (rl', None)"
  | (wait) rl' waitTime where "acquire_pass rl now = (rl', Some waitTime)"
  by (cases "acquire_pass rl now") (metis option.exhaust)

lemma filter_filter_later:
  fixes now now' w :: int
  assumes "now \<le> now'"
  shows "filter (\<lambda>time. now' - time < w) (filter (\<lambda>time. now - time < w) xs)
           = filter (\<lambda>time. now' - time < w) xs"
  using assms by (induction xs) auto

lemma acquire_fields:
  "maxRequests (fst (acquire rl now late)) = maxRequests rl
   \<and> windowMs (fst (acquire rl now late)) = windowMs rl"
proof (induction rl now late rule: acquire.induct)
  case (1 rl now late)
  show ?case
  proof (cases rule: acquire_pass_cases[of rl now])
    case (push rl')
    then show ?thesis
      using acquire_pass_push(1)[OF push] by (subst (1 2) acquire.simps) simp
  next
    case (wait rl' waitTime)
    have "maxRequests rl' = maxRequests rl" "windowMs rl' = windowMs rl"
      using acquire_pass_wait(1)[OF wait] by simp_all
    then show ?thesis
      using 1[OF wait[symmetric] refl] wait by (subst (1 2) acquire.simps) simp
  qed
qed

text \<open>\<open>acquire\<close> returns no earlier than it is called, and what it leaves is the
  requests still inside the window at the time of its return, with that time at the end.\<close>

lemma acquire_result:
  "now \<le> snd (acquire rl now late)
   \<and> requests (fst (acquire rl now late))
       = filter (\<lambda>time. snd (acquire rl now late) - time < windowMs rl) (requests rl)
         @ [snd (acquire rl now late)]"
proof (induction rl now late rule: acquire.induct)
  case (1 rl now late)
  show ?case
  proof (cases rule: acquire_pass_cases[of rl now])
    case (push rl')
    then show ?thesis
      using acquire_pass_push(1)[OF push] by (subst (1 2 3 4) acquire.simps) simp
  next
    case (wait rl' waitTime)
    let ?now' = "now + waitTime + (case late of [] \<Rightarrow> 0 | l # x \<Rightarrow> int l)"
    have eq: "acquire rl now late = acquire rl' ?now' (tl late)"
      using wait by (subst acquire.simps) simp
    have w: "windowMs rl' = windowMs rl"
      and r: "requests rl' = filter (\<lambda>time. now - time < windowMs rl) (requests rl)"
      using acquire_pass_wait(1)[OF wait] by simp_all
    have le: "now \<le> ?now'"
      using acquire_pass_wait(4)[OF wait] by (simp split: list.splits)
    from 1[OF wait[symmetric] refl]
    have ih: "?now' \<le> snd (acquire rl' ?now' (tl late))"
      "requests (fst (acquire rl' ?now' (tl late)))
         = filter (\<lambda>time. snd (acquire rl' ?now' (tl late)) - time < windowMs rl') (requests rl')
           @ [snd (acquire rl' ?now' (tl late))]"
      by simp_all
    have nl: "now \<le> snd (acquire rl' ?now' (tl late))"
      using le ih(1) by simp
    show ?thesis
      unfolding eq ih(2) w r filter_filter_later[OF nl] using nl by simp
  qed
qed

lemma acquire_length:
  assumes "1 \<le> maxRequests rl"
  shows "int (length (requests (fst (acquire rl now late)))) \<le> maxRequests rl"
  using assms
proof (induction rl now late rule: acquire.induct)
  case (1 rl now late)
  show ?case
  proof (cases rule: acquire_pass_cases[of rl now])
    case (push rl')
    then show ?thesis
      using acquire_pass_push[OF push] "1.prems" by (subst acquire.simps) simp
  next
    case (wait rl' waitTime)
    have "maxRequests rl' = maxRequests rl"
      using acquire_pass_wait(1)[OF wait] by simp
    then show ?thesis
      using 1(1)[OF wait[symmetric] refl] "1.prems" wait by (subst acquire.simps) simp
  qed
qed

lemma acquire_waits:
  assumes "maxRequests rl \<le> int (length (filter (\<lambda>time. now - time < windowMs rl) (requests rl)))"
    and "filter (\<lambda>time. now - time < windowMs rl) (requests rl) = oldest # rest"
  shows "oldest + windowMs rl \<le> snd (acquire rl now late)"
proof (cases rule: acquire_pass_cases[of rl now])
  case (push rl')
  with assms show ?thesis
    by (auto simp: acquire_pass_def Let_def split: if_splits dest: filter_Cons_holds)
next
  case (wait rl' waitTime)
  let ?now' = "now + waitTime + (case late of [] \<Rightarrow> 0 | l # x \<Rightarrow> int l)"
  have eq: "acquire rl now late = acquire rl' ?now' (tl late)"
    using wait by (subst acquire.simps) simp
  from acquire_pass_wait(3)[OF wait] assms(2) have "oldest = now + waitTime - windowMs rl"
    by auto
  then have "oldest + windowMs rl \<le> ?now'"
    by (simp split: list.splits)
  also have "\<dots> \<le> snd (acquire rl' ?now' (tl late))"
    using acquire_result[of ?now' rl' "tl late"] by simp
  finally show ?thesis unfolding eq .
qed

subsection \<open>Any window of the length of the window\<close>

lemma length_filter_mono:
  assumes "\<And>x. x \<in> set xs \<Longrightarrow> P x \<Longrightarrow> Q x"
  shows "length (filter P xs) \<le> length (filter Q xs)"
  using assms by (induction xs) auto

lemma limiter_run_Cons:
  "acquire_pass rl now = (rl', None) \<Longrightarrow>
     snd (limiter_run rl (now # ts)) = now # snd (limiter_run rl' ts)"
  "acquire_pass rl now = (rl', Some waitTime) \<Longrightarrow>
     snd (limiter_run rl (now # ts)) = snd (limiter_run rl' ts)"
  by (simp_all split: prod.splits)

lemma limiter_run_window:
  assumes "1 \<le> maxRequests rl"
    and "sorted (n0 # ts)"
    and "\<forall>n \<ge> n0. filter (\<lambda>time. n - time < windowMs rl) (requests rl)
                    = filter (\<lambda>time. n - time < windowMs rl) cs"
    and "\<forall>c \<in> set cs. c \<le> n0"
    and "\<forall>s. int (length (filter (\<lambda>c. s - windowMs rl < c \<and> c \<le> s) cs)) \<le> maxRequests rl"
  shows "int (length (filter (\<lambda>c. s - windowMs rl < c \<and> c \<le> s) (cs @ snd (limiter_run rl ts))))
           \<le> maxRequests rl"
  using assms
proof (induction ts arbitrary: rl n0 cs)
  case Nil
  then show ?case by simp
next
  case (Cons now ts)
  let ?W = "windowMs rl"
  let ?reqs = "filter (\<lambda>time. now - time < ?W) (requests rl)"
  have n0: "n0 \<le> now" and srt: "sorted (now # ts)"
    using Cons.prems(2) by simp_all
  have reqs: "?reqs = filter (\<lambda>time. now - time < ?W) cs"
    using Cons.prems(3) n0 by simp
  show ?case
  proof (cases rule: acquire_pass_cases[of rl now])
    case (wait rl' waitTime)
    have rl': "rl' = rl\<lparr>requests := ?reqs\<rparr>"
      by (rule acquire_pass_wait(1)[OF wait])
    have i: "\<forall>n \<ge> now. filter (\<lambda>time. n - time < windowMs rl') (requests rl')
                = filter (\<lambda>time. n - time < windowMs rl') cs"
    proof (intro allI impI)
      fix n assume n: "now \<le> n"
      have "filter (\<lambda>time. n - time < ?W) ?reqs = filter (\<lambda>time. n - time < ?W) (requests rl)"
        by (rule filter_filter_later[OF n])
      also have "\<dots> = filter (\<lambda>time. n - time < ?W) cs"
        using Cons.prems(3) n0 n by simp
      finally show "filter (\<lambda>time. n - time < windowMs rl') (requests rl')
                = filter (\<lambda>time. n - time < windowMs rl') cs"
        unfolding rl' by simp
    qed
    have ii: "\<forall>c \<in> set cs. c \<le> now"
      using Cons.prems(4) n0 by fastforce
    have "int (length (filter (\<lambda>c. s - windowMs rl' < c \<and> c \<le> s) (cs @ snd (limiter_run rl' ts))))
            \<le> maxRequests rl'"
      using Cons.prems(1,5) by (intro Cons.IH[OF _ srt i ii]) (simp_all add: rl')
    then show ?thesis
      unfolding limiter_run_Cons(2)[OF wait] by (simp add: rl')
  next
    case (push rl')
    have rl': "rl' = rl\<lparr>requests := ?reqs @ [now]\<rparr>"
      by (rule acquire_pass_push(1)[OF push])
    have lt: "int (length ?reqs) < maxRequests rl"
      by (rule acquire_pass_push(2)[OF push Cons.prems(1)])
    have i: "\<forall>n \<ge> now. filter (\<lambda>time. n - time < windowMs rl') (requests rl')
                = filter (\<lambda>time. n - time < windowMs rl') (cs @ [now])"
    proof (intro allI impI)
      fix n assume n: "now \<le> n"
      have "filter (\<lambda>time. n - time < ?W) ?reqs = filter (\<lambda>time. n - time < ?W) (requests rl)"
        by (rule filter_filter_later[OF n])
      also have "\<dots> = filter (\<lambda>time. n - time < ?W) cs"
        using Cons.prems(3) n0 n by simp
      finally have "filter (\<lambda>time. n - time < ?W) (?reqs @ [now])
                      = filter (\<lambda>time. n - time < ?W) (cs @ [now])"
        by simp
      then show "filter (\<lambda>time. n - time < windowMs rl') (requests rl')
                = filter (\<lambda>time. n - time < windowMs rl') (cs @ [now])"
        unfolding rl' by simp
    qed
    have ii: "\<forall>c \<in> set (cs @ [now]). c \<le> now"
      using Cons.prems(4) n0 by fastforce
    have iii: "\<forall>s. int (length (filter (\<lambda>c. s - windowMs rl' < c \<and> c \<le> s) (cs @ [now])))
                 \<le> maxRequests rl'"
    proof
      fix s
      show "int (length (filter (\<lambda>c. s - windowMs rl' < c \<and> c \<le> s) (cs @ [now])))
              \<le> maxRequests rl'"
      proof (cases "s - ?W < now \<and> now \<le> s")
        case True
        have "length (filter (\<lambda>c. s - ?W < c \<and> c \<le> s) cs)
                \<le> length (filter (\<lambda>time. now - time < ?W) cs)"
          using True by (intro length_filter_mono) auto
        then show ?thesis using lt True by (simp add: rl' reqs)
      next
        case False
        then show ?thesis using Cons.prems(5) by (auto simp: rl')
      qed
    qed
    have "int (length (filter (\<lambda>c. s - windowMs rl' < c \<and> c \<le> s)
                         ((cs @ [now]) @ snd (limiter_run rl' ts))))
            \<le> maxRequests rl'"
      using Cons.prems(1) by (intro Cons.IH[OF _ srt i ii iii]) (simp add: rl')
    then show ?thesis
      unfolding limiter_run_Cons(1)[OF push] by (simp add: rl')
  qed
qed

text \<open>A call of \<open>acquire\<close> is a run of passes at times that do not decrease, the last of
  which pushes the time at which \<open>acquire\<close> returns.\<close>

lemma acquire_is_run:
  "\<exists>ts. sorted (now # ts) \<and> limiter_run rl (now # ts)
           = (fst (acquire rl now late), [snd (acquire rl now late)])"
proof (induction rl now late rule: acquire.induct)
  case (1 rl now late)
  show ?case
  proof (cases rule: acquire_pass_cases[of rl now])
    case (push rl')
    then have "limiter_run rl [now] = (fst (acquire rl now late), [snd (acquire rl now late)])"
      by (subst (1 2) acquire.simps) simp
    then show ?thesis by (intro exI[of _ "[]"]) simp
  next
    case (wait rl' waitTime)
    let ?now' = "now + waitTime + (case late of [] \<Rightarrow> 0 | l # x \<Rightarrow> int l)"
    have eq: "acquire rl now late = acquire rl' ?now' (tl late)"
      using wait by (subst acquire.simps) simp
    have le: "now \<le> ?now'"
      using acquire_pass_wait(4)[OF wait] by (simp split: list.splits)
    from 1[OF wait[symmetric] refl]
    obtain ts where ts: "sorted (?now' # ts)"
        "limiter_run rl' (?now' # ts)
           = (fst (acquire rl' ?now' (tl late)), [snd (acquire rl' ?now' (tl late))])"
      by blast
    have "sorted (now # ?now' # ts)"
      using ts(1) le by auto
    moreover have "limiter_run rl (now # ?now' # ts)
                     = (fst (acquire rl now late), [snd (acquire rl now late)])"
      unfolding eq ts(2)[symmetric] using wait by simp
    ultimately show ?thesis by blast
  qed
qed

text \<open>
  C3. With \<open>maxRequests \<ge> 1\<close>: when \<open>acquire\<close> returns, at most \<open>maxRequests\<close> timestamps are
  tracked, all of them inside the window that ends at the timestamp just pushed; a call
  made while \<open>maxRequests\<close> timestamps are inside the window returns, and pushes its own
  timestamp, only when the oldest of them has left the window; and, the clock never going
  back, of all the timestamps ever pushed on a limiter that starts empty, by any number of
  callers, no window of length \<open>windowMs\<close> holds more than \<open>maxRequests\<close>.
\<close>

theorem acquire_respects_window:
  assumes "1 \<le> maxRequests rl"
  shows "int (length (requests (fst (acquire rl now late)))) \<le> maxRequests rl
    \<and> requests (fst (acquire rl now late))
        = filter (\<lambda>time. snd (acquire rl now late) - time < windowMs rl) (requests rl)
          @ [snd (acquire rl now late)]
    \<and> (maxRequests rl \<le> int (length (filter (\<lambda>time. now - time < windowMs rl) (requests rl)))
         \<longrightarrow> hd (filter (\<lambda>time. now - time < windowMs rl) (requests rl)) + windowMs rl
               \<le> snd (acquire rl now late))
    \<and> (requests rl = [] \<and> sorted ts
         \<longrightarrow> int (length (filter (\<lambda>c. s - windowMs rl < c \<and> c \<le> s) (snd (limiter_run rl ts))))
               \<le> maxRequests rl)"
proof (intro conjI impI)
  show "int (length (requests (fst (acquire rl now late)))) \<le> maxRequests rl"
    by (rule acquire_length[OF assms])
  show "requests (fst (acquire rl now late))
        = filter (\<lambda>time. snd (acquire rl now late) - time < windowMs rl) (requests rl)
          @ [snd (acquire rl now late)]"
    using acquire_result[of now rl late] by simp
next
  assume full: "maxRequests rl \<le> int (length (filter (\<lambda>time. now - time < windowMs rl) (requests rl)))"
  with assms obtain oldest rest
    where r: "filter (\<lambda>time. now - time < windowMs rl) (requests rl) = oldest # rest"
    by (cases "filter (\<lambda>time. now - time < windowMs rl) (requests rl)") auto
  show "hd (filter (\<lambda>time. now - time < windowMs rl) (requests rl)) + windowMs rl
          \<le> snd (acquire rl now late)"
    using acquire_waits[OF full r] r by simp
next
  assume a: "requests rl = [] \<and> sorted ts"
  show "int (length (filter (\<lambda>c. s - windowMs rl < c \<and> c \<le> s) (snd (limiter_run rl ts))))
          \<le> maxRequests rl"
  proof (cases ts)
    case Nil
    then show ?thesis using assms by simp
  next
    case (Cons n0 ts')
    have "int (length (filter (\<lambda>c. s - windowMs rl < c \<and> c \<le> s) ([] @ snd (limiter_run rl ts))))
            \<le> maxRequests rl"
      using a assms Cons by (intro limiter_run_window[where ?n0.0 = n0]) simp_all
    then show ?thesis by simp
  qed
qed

theorem acquire_respects_window_witness:
  "(1::int) \<le> maxRequests (new_RateLimiter (Some 2) (Some 1000)\<lparr>requests := [100, 400]\<rparr>)
   \<and> acquire (new_RateLimiter (Some 2) (Some 1000)\<lparr>requests := [100, 400]\<rparr>) 500 [3]
       = (new_RateLimiter (Some 2) (Some 1000)\<lparr>requests := [400, 1103]\<rparr>, 1103)
   \<and> snd (limiter_run (new_RateLimiter (Some 2) (Some 1000)) [0, 10, 20, 1000, 1005, 1010, 1020])
       = [0, 10, 1000, 1010]"
proof -
  let ?rl = "new_RateLimiter (Some 2) (Some 1000)\<lparr>requests := [100, 400]\<rparr>"
  have h: "(1::int) \<le> maxRequests ?rl"
    by (simp add: new_RateLimiter_def)
  have a: "acquire ?rl 500 [3] = (new_RateLimiter (Some 2) (Some 1000)\<lparr>requests := [400, 1103]\<rparr>, 1103)"
    by code_simp
  have r: "snd (limiter_run (new_RateLimiter (Some 2) (Some 1000)) [0, 10, 20, 1000, 1005, 1010, 1020])
             = [0, 10, 1000, 1010]"
    by code_simp
  show ?thesis
    using h a r acquire_respects_window[OF h, of 500 "[3]" "[0, 10, 20, 1000, 1005, 1010, 1020]" 1010]
    by simp
qed


section \<open>The cache\<close>

lemma evict_fold_key:
  "fst (fold evict_step al acc) = fst acc \<or> fst (fold evict_step al acc) \<in> Some ` fst ` set al"
proof (induction al arbitrary: acc)
  case Nil
  then show ?case by simp
next
  case (Cons x al)
  obtain k e where x: "x = (k, e)" by (cases x)
  obtain ko t where acc: "acc = (ko, t)" by (cases acc)
  have "fst (evict_step x acc) = fst acc \<or> fst (evict_step x acc) = Some (fst x)"
    by (simp add: evict_step_def x acc)
  with Cons.IH[of "evict_step x acc"] show ?case by auto
qed

lemma evict_fold_first:
  "al \<noteq> [] \<Longrightarrow> fst (fold evict_step al (None, None)) \<in> Some ` fst ` set al"
proof (cases al)
  case Nil
  then show "al \<noteq> [] \<Longrightarrow> ?thesis" by simp
next
  case (Cons x xs)
  obtain k e where x: "x = (k, e)" by (cases x)
  have "evict_step x (None, None) = (Some k, Some (lastAccess e))"
    by (simp add: evict_step_def x)
  with evict_fold_key[of xs "(Some k, Some (lastAccess e))"] Cons x
  show ?thesis by auto
qed

lemma length_delete_less:
  "k \<in> fst ` set al \<Longrightarrow> length (AList.delete k al) < length al"
proof (induction al)
  case Nil
  then show ?case by simp
next
  case (Cons p al)
  show ?case
  proof (cases "fst p = k")
    case True
    then show ?thesis
      using length_delete_le[of k al] by simp
  next
    case False
    with Cons.prems have "k \<in> fst ` set al" by auto
    from Cons.IH[OF this] False show ?thesis by simp
  qed
qed

lemma length_update_le:
  "length (AList.update k v al) \<le> Suc (length al)"
  by (induction al) auto

text \<open>With keys that are not empty, \<open>_evictLRU\<close> removes an entry of a cache that has one,
  and \<open>set\<close> keeps the size within the capacity.\<close>

lemma evictLRU_shrinks:
  assumes "cache c \<noteq> []" and "\<forall>k \<in> fst ` set (cache c). k \<noteq> []"
  shows "length (cache (evictLRU c)) < length (cache c)"
proof -
  from evict_fold_first[OF assms(1)]
  obtain k where k: "k \<in> fst ` set (cache c)" "fst (fold evict_step (cache c) (None, None)) = Some k"
    by auto
  with assms(2) have "k \<noteq> []" by blast
  with k show ?thesis
    by (simp add: evictLRU_def length_delete_less)
qed

lemma cache_set_size:
  assumes "1 \<le> maxSize c" and "length (cache c) \<le> maxSize c"
    and "\<forall>k \<in> fst ` set (cache c). k \<noteq> []"
  shows "length (cache (cache_set c key d now)) \<le> maxSize (cache_set c key d now)"
proof (cases "length (cache c) \<ge> maxSize c")
  case True
  with assms(1) have "cache c \<noteq> []" by auto
  from evictLRU_shrinks[OF this assms(3)] assms(2)
  have "length (cache (evictLRU c)) < maxSize c" by simp
  moreover have "maxSize (evictLRU c) = maxSize c"
    by (simp add: evictLRU_def split: option.splits)
  ultimately show ?thesis
    using True length_update_le[of key _ "cache (evictLRU c)"]
    by (simp add: cache_set_def Let_def) (meson Suc_leI le_trans)
next
  case False
  then show ?thesis
    using length_update_le[of key _ "cache c"]
    by (simp add: cache_set_def Let_def) (meson Suc_leI le_trans not_le)
qed

text \<open>
  C4 fails for a key that is the empty string. \<open>_evictLRU\<close> finds the least recently
  accessed key and then tests it with \<open>if (oldest)\<close>: the empty string is falsy, so nothing
  is deleted. A cache of capacity 1 holds two entries after \<open>set('', 0)\<close> and
  \<open>set('b', 1)\<close>: nothing was evicted and the size exceeds the capacity.
\<close>

theorem cache_set_empty_key_exceeds_capacity:
  "maxSize (cache_sets (new_ValidationCache None (Some 1)) [('''', 0 :: nat, 1), (''b'', 1, 2)]) = 1
   \<and> map fst (cache (cache_sets (new_ValidationCache None (Some 1)) [('''', 0 :: nat, 1), (''b'', 1, 2)]))
       = ['''', ''b'']"
  by code_simp


section \<open>Probing\<close>

lemmas mutator_defs =
  push_detectionMethod_def inc_probsExecuted_def inc_probsSuccessful_def push_errorDetail_def
  push_fallbackUsed_def push_probeResult_def

lemma frame_refl: "frame r r"
  by (simp add: frame_def)

lemma frame_trans: "frame r r' \<Longrightarrow> frame r' r'' \<Longrightarrow> frame r r''"
  unfolding frame_def by (elim conjE exE) (rule conjI, simp, rule conjI, simp, auto)

lemma frame_mutators:
  "frame r (push_detectionMethod m r)"
  "frame r (inc_probsExecuted r)"
  "frame r (inc_probsSuccessful r)"
  "frame r (push_fallbackUsed s r)"
  "frame r (push_probeResult p r)"
  by (simp_all add: frame_def verdict_def mutator_defs)

lemma frame_push_errorDetail:
  "code e \<noteq> ''FATAL'' \<Longrightarrow> frame r (push_errorDetail e r)"
  by (simp add: frame_def verdict_def mutator_defs)

lemma counters_mutators:
  "diagnostics (push_detectionMethod m r) = diagnostics r"
  "probsExecuted (diagnostics (inc_probsExecuted r)) = Suc (probsExecuted (diagnostics r))"
  "probsSuccessful (diagnostics (inc_probsExecuted r)) = probsSuccessful (diagnostics r)"
  "probsExecuted (diagnostics (inc_probsSuccessful r)) = probsExecuted (diagnostics r)"
  "probsSuccessful (diagnostics (inc_probsSuccessful r)) = Suc (probsSuccessful (diagnostics r))"
  "probsExecuted (diagnostics (push_errorDetail e r)) = probsExecuted (diagnostics r)"
  "probsSuccessful (diagnostics (push_errorDetail e r)) = probsSuccessful (diagnostics r)"
  "probsExecuted (diagnostics (push_fallbackUsed s r)) = probsExecuted (diagnostics r)"
  "probsSuccessful (diagnostics (push_fallbackUsed s r)) = probsSuccessful (diagnostics r)"
  "probsExecuted (diagnostics (push_probeResult p r)) = probsExecuted (diagnostics r)"
  "probsSuccessful (diagnostics (push_probeResult p r)) = probsSuccessful (diagnostics r)"
  by (simp_all add: mutator_defs)

lemma processProbeResult_diagnostics:
  "diagnostics (processProbeResult n p r t) = diagnostics r"
  by (simp add: processProbeResult_def push_detectionMethod_def Let_def
           split: payload.splits option.splits)

lemma processProbeResult_frame:
  "frame r (processProbeResult n p r t)"
  by (simp add: frame_def verdict_def processProbeResult_def push_detectionMethod_def Let_def
           split: payload.splits option.splits)

lemma extractErrorCode_not_fatal:
  "extractErrorCode err \<noteq> ''FATAL''"
proof -
  have "find P [''403'', ''401'', ''404'', ''429'', ''500''] = Some c \<Longrightarrow> c \<noteq> ''FATAL''" for P c
    by (auto split: if_splits)
  then show ?thesis
    by (auto simp: extractErrorCode_def Let_def split: option.splits)
qed

lemma recordError_Inr:
  assumes "recordError stg err r t = Inr r'"
  shows "frame r r'"
    and "probsExecuted (diagnostics r') = probsExecuted (diagnostics r)"
    and "probsSuccessful (diagnostics r') = probsSuccessful (diagnostics r)"
proof -
  from assms obtain e where e: "r' = push_errorDetail e r" "code e = extractErrorCode err"
    by (auto simp: recordError_def split: js_value.splits)
  show "frame r r'"
    unfolding e(1) using e(2) extractErrorCode_not_fatal
    by (intro frame_push_errorDetail) simp
  show "probsExecuted (diagnostics r') = probsExecuted (diagnostics r)"
    and "probsSuccessful (diagnostics r') = probsSuccessful (diagnostics r)"
    unfolding e(1) by (simp_all add: counters_mutators)
qed

lemma recordError_Inl:
  "recordError stg err r t = Inl exc \<Longrightarrow> err = Undefined \<or> err = Null"
  by (auto simp: recordError_def split: js_value.splits)

lemma retry_loop_result:
  "frame r (snd (retry_loop cfg tk n r t))"
  "probsExecuted (diagnostics (snd (retry_loop cfg tk n r t))) = probsExecuted (diagnostics r)"
  "probsSuccessful (diagnostics (snd (retry_loop cfg tk n r t))) = probsSuccessful (diagnostics r)"
  by (simp_all add: retry_loop_def frame_mutators frame_refl counters_mutators)

lemma executeProbe_start_result:
  "snd (executeProbe_start p r t) = inc_probsExecuted r"
  "pending (fst (executeProbe_start p r t))"
  by (simp_all add: executeProbe_start_def Let_def pending_def split: prod.splits)

text \<open>One step of a probe: the counter of the probes executed stays, the counter of the
  successes goes up by one at most, and only in a step that ends the task.\<close>

lemma executeProbe_resume_step:
  assumes "executeProbe_resume cfg tk r t = (tk', r')"
  shows "frame r r'"
    and "probsExecuted (diagnostics r') = probsExecuted (diagnostics r)"
    and "probsSuccessful (diagnostics r') = probsSuccessful (diagnostics r)
         \<or> (probsSuccessful (diagnostics r') = Suc (probsSuccessful (diagnostics r))
            \<and> pending tk \<and> \<not> pending tk')"
proof -
  let ?W = "\<lambda>r'. frame r r' \<and> probsExecuted (diagnostics r') = probsExecuted (diagnostics r)
               \<and> probsSuccessful (diagnostics r') = probsSuccessful (diagnostics r)"
  let ?S = "\<lambda>r'. frame r r' \<and> probsExecuted (diagnostics r') = probsExecuted (diagnostics r)
               \<and> probsSuccessful (diagnostics r') = Suc (probsSuccessful (diagnostics r))"
  have success: "?S (inc_probsSuccessful (processProbeResult n p r t))" for n p
    using frame_trans[OF processProbeResult_frame frame_mutators(3)]
    by (simp add: counters_mutators processProbeResult_diagnostics)
  have success': "?S (push_probeResult q (inc_probsSuccessful (processProbeResult n p r t)))" for n p q
    using frame_trans[OF frame_trans[OF processProbeResult_frame frame_mutators(3)] frame_mutators(5)]
    by (simp add: counters_mutators processProbeResult_diagnostics)
  have same: "?W r"
    by (simp add: frame_refl)
  have loop: "?W (snd (retry_loop cfg tk n r1 t))" if "?W r1" for n r1
    using that frame_trans[OF _ retry_loop_result(1)] by (simp add: retry_loop_result)
  have pushed: "?W (push_probeResult q r1)" if "?W r1" for q r1
    using that frame_trans[OF _ frame_mutators(5)] by (simp add: counters_mutators)
  have recorded: "?W r1" if "recordError stg err r t = Inr r1" for stg err r1
    using recordError_Inr[OF that] by simp
  have "?W r' \<or> (?S r' \<and> pending tk \<and> \<not> pending tk')"
  proof (cases "t_state tk")
    case (AwaitFirst probeStart rep)
    show ?thesis
    proof (cases rep)
      case (Resolve probeResult)
      with AwaitFirst assms have "tk' = tk\<lparr>t_state := Finished\<rparr>"
        and "r' = push_probeResult
                \<lparr>res_name = name (t_probe tk), res_status = SUCCESS, res_duration = t - probeStart,
                 res_error = None\<rparr>
                (inc_probsSuccessful (processProbeResult (name (t_probe tk)) probeResult r t))"
        by (simp_all add: executeProbe_resume_def Let_def)
      with AwaitFirst have "?S r' \<and> pending tk \<and> \<not> pending tk'"
        using success' by (simp add: pending_def)
      then show ?thesis ..
    next
      case (Reject err)
      show ?thesis
      proof (cases "recordError (name (t_probe tk)) err r t")
        case (Inl exc)
        with AwaitFirst Reject assms have "r' = r"
          by (simp add: executeProbe_resume_def Let_def)
        then show ?thesis using same by simp
      next
        case (Inr r1)
        let ?r2 = "push_probeResult
                     \<lparr>res_name = name (t_probe tk),
                      res_status = (if isFatalError err then FAILED else TIMEOUT),
                      res_duration = t - probeStart, res_error = js_message err\<rparr> r1"
        have w2: "?W ?r2"
          by (rule pushed[OF recorded[OF Inr]])
        from Inr AwaitFirst Reject assms
        have "r' = snd (retry_loop cfg tk 0 ?r2 t) \<or> r' = ?r2"
          by (auto simp: executeProbe_resume_def Let_def split: if_splits)
        then have "?W r'"
          using loop[OF w2] w2 by (elim disjE) (simp_all only:)
        then show ?thesis ..
      qed
    qed
  next
    case (AwaitDelay retry)
    with assms have "r' = r"
      by (auto simp: executeProbe_resume_def Let_def split: prod.splits)
    then show ?thesis using same by simp
  next
    case (AwaitRetry retry rep)
    show ?thesis
    proof (cases rep)
      case (Resolve retryResult)
      with AwaitRetry assms have "tk' = tk\<lparr>t_state := Finished\<rparr>"
        and "r' = inc_probsSuccessful (processProbeResult (name (t_probe tk)) retryResult r t)"
        by (simp_all add: executeProbe_resume_def Let_def)
      with AwaitRetry have "?S r' \<and> pending tk \<and> \<not> pending tk'"
        using success by (simp add: pending_def)
      then show ?thesis ..
    next
      case (Reject retryError)
      show ?thesis
      proof (cases "retry + 1 = maxRetries cfg")
        case True
        show ?thesis
        proof (cases "recordError (name (t_probe tk) @ ''_final_retry'') retryError r t")
          case (Inl exc)
          with AwaitRetry Reject True assms have "r' = r"
            by (simp add: executeProbe_resume_def Let_def)
          then show ?thesis using same by simp
        next
          case (Inr r1)
          with AwaitRetry Reject True assms have "r' = snd (retry_loop cfg tk (retry + 1) r1 t)"
            by (auto simp: executeProbe_resume_def Let_def)
          then have "?W r'"
            using loop[OF recorded[OF Inr]] by (simp only:)
          then show ?thesis ..
        qed
      next
        case False
        with AwaitRetry Reject assms have "r' = snd (retry_loop cfg tk (retry + 1) r t)"
          by (auto simp: executeProbe_resume_def Let_def)
        then have "?W r'"
          using loop[OF same] by (simp only:)
        then show ?thesis ..
      qed
    qed
  next
    case Finished
    with assms have "r' = r" by (simp add: executeProbe_resume_def Let_def)
    then show ?thesis using same by simp
  next
    case (Threw exc)
    with assms have "r' = r" by (simp add: executeProbe_resume_def Let_def)
    then show ?thesis using same by simp
  qed
  then show "frame r r'"
    and "probsExecuted (diagnostics r') = probsExecuted (diagnostics r)"
    and "probsSuccessful (diagnostics r') = probsSuccessful (diagnostics r)
         \<or> (probsSuccessful (diagnostics r') = Suc (probsSuccessful (diagnostics r))
            \<and> pending tk \<and> \<not> pending tk')"
    by auto
qed

subsection \<open>The tasks\<close>

lemma next_task_Some:
  assumes "next_task ts = Some i"
  shows "i < length ts" and "pending (ts ! i)"
proof -
  define ps where "ps = filter (\<lambda>i. pending (ts ! i)) [0 ..< length ts]"
  have fold_in: "fold (\<lambda>j best. if t_wake (ts ! j) < t_wake (ts ! best) then j else best) js b
                   \<in> insert b (set js)" for js b
    by (induction js arbitrary: b) auto
  from assms obtain j rest where ps: "ps = j # rest"
      and i: "i = fold (\<lambda>j best. if t_wake (ts ! j) < t_wake (ts ! best) then j else best) rest j"
    unfolding next_task_def ps_def[symmetric] by (auto split: list.splits)
  from i fold_in[of rest j] ps have "i \<in> set ps" by auto
  then show "i < length ts" and "pending (ts ! i)"
    unfolding ps_def by auto
qed

lemma next_task_None:
  assumes "next_task ts = None"
  shows "\<forall>tk \<in> set ts. \<not> pending tk"
proof -
  from assms have "filter (\<lambda>i. pending (ts ! i)) [0 ..< length ts] = []"
    unfolding next_task_def by (auto split: list.splits)
  then have "\<forall>i < length ts. \<not> pending (ts ! i)"
    by (auto simp: filter_empty_conv)
  then show ?thesis by (auto simp: in_set_conv_nth)
qed

lemma length_filter_update:
  "i < length xs \<Longrightarrow>
     length (filter P (xs[i := y])) + (if P (xs ! i) then 1 else 0)
       = length (filter P xs) + (if P y then 1 else 0)"
proof (induction xs arbitrary: i)
  case Nil
  then show ?case by simp
next
  case (Cons x xs)
  then show ?case by (cases i) auto
qed

text \<open>Running the tasks to their end: every task ends, the counter of the probes executed
  stays, and the successes go up by no more than the number of tasks that were waiting.\<close>

lemma run_tasks_result:
  "frame r (fst (snd (run_tasks cfg ts r now)))
   \<and> probsExecuted (diagnostics (fst (snd (run_tasks cfg ts r now)))) = probsExecuted (diagnostics r)
   \<and> probsSuccessful (diagnostics r) \<le> probsSuccessful (diagnostics (fst (snd (run_tasks cfg ts r now))))
   \<and> probsSuccessful (diagnostics (fst (snd (run_tasks cfg ts r now))))
       \<le> probsSuccessful (diagnostics r) + length (filter pending ts)
   \<and> (\<forall>tk \<in> set (fst (run_tasks cfg ts r now)). \<not> pending tk)"
proof (induction cfg ts r now rule: run_tasks.induct)
  case (1 cfg ts r now)
  show ?case
  proof (cases "next_task ts")
    case None
    then have "run_tasks cfg ts r now = (ts, r, now)"
      by (subst run_tasks.simps) simp
    then show ?thesis
      using next_task_None[OF None] by (simp add: frame_refl)
  next
    case (Some i)
    let ?t = "max now (t_wake (ts ! i))"
    obtain tk' r' where step: "executeProbe_resume cfg (ts ! i) r ?t = (tk', r')"
      by (cases "executeProbe_resume cfg (ts ! i) r ?t")
    have eq: "run_tasks cfg ts r now = run_tasks cfg (ts[i := tk']) r' ?t"
      using Some step by (subst run_tasks.simps) simp
    note ih = 1[OF Some step[symmetric]]
    note st = executeProbe_resume_step[OF step]
    have il: "i < length ts" and ip: "pending (ts ! i)"
      using next_task_Some[OF Some] by simp_all
    have cnt: "length (filter pending (ts[i := tk'])) + 1
                 = length (filter pending ts) + (if pending tk' then 1 else 0)"
      using length_filter_update[OF il, of pending tk'] ip by simp
    let ?r'' = "fst (snd (run_tasks cfg (ts[i := tk']) r' ?t))"
    have "frame r ?r''"
      using frame_trans[OF st(1)] ih by blast
    moreover have "probsExecuted (diagnostics ?r'') = probsExecuted (diagnostics r)"
      using ih st(2) by simp
    moreover have "probsSuccessful (diagnostics r) \<le> probsSuccessful (diagnostics ?r'')"
      using ih st(3) by auto
    moreover have "probsSuccessful (diagnostics ?r'')
                     \<le> probsSuccessful (diagnostics r) + length (filter pending ts)"
    proof -
      have "probsSuccessful (diagnostics ?r'')
              \<le> probsSuccessful (diagnostics r') + length (filter pending (ts[i := tk']))"
        using ih by simp
      moreover have "probsSuccessful (diagnostics r') + (if pending tk' then 1 else 0)
                       \<le> probsSuccessful (diagnostics r) + 1"
        using st(3) by auto
      ultimately show ?thesis using cnt by (simp split: if_splits)
    qed
    moreover have "\<forall>tk \<in> set (fst (run_tasks cfg (ts[i := tk']) r' ?t)). \<not> pending tk"
      using ih by simp
    ultimately show ?thesis unfolding eq by simp
  qed
qed

lemma probed_trans:
  "probed r r' k \<Longrightarrow> probed r' r'' l \<Longrightarrow> probed r r'' (k + l)"
  by (simp add: probed_def)

lemma executeProbe_result:
  "frame r (fst (executeProbe cfg p r now)) \<and> probed r (fst (executeProbe cfg p r now)) 1
   \<and> probsExecuted (diagnostics (fst (executeProbe cfg p r now))) = probsExecuted (diagnostics r) + 1"
proof -
  obtain tk r1 where st: "executeProbe_start p r now = (tk, r1)"
    by (cases "executeProbe_start p r now")
  have r1: "r1 = inc_probsExecuted r"
    using executeProbe_start_result(1)[of p r now] st by simp
  have eq: "fst (executeProbe cfg p r now) = fst (snd (run_tasks cfg [tk] r1 now))"
    using st by (simp add: executeProbe_def split: prod.splits)
  let ?r2 = "fst (snd (run_tasks cfg [tk] r1 now))"
  have one: "length (filter pending [tk]) \<le> 1" by simp
  from run_tasks_result[of r1 cfg "[tk]" now]
  have a: "frame r1 ?r2"
    and b: "probsExecuted (diagnostics ?r2) = probsExecuted (diagnostics r1)"
    and c: "probsSuccessful (diagnostics r1) \<le> probsSuccessful (diagnostics ?r2)"
    and d: "probsSuccessful (diagnostics ?r2)
              \<le> probsSuccessful (diagnostics r1) + length (filter pending [tk])"
    by blast+
  from d one have d': "probsSuccessful (diagnostics ?r2) \<le> probsSuccessful (diagnostics r1) + 1"
    by linarith
  have "frame r ?r2"
    using frame_trans[OF frame_mutators(2)[of r]] a unfolding r1 by blast
  moreover have "probed r ?r2 1"
    using b c d' unfolding r1 probed_def by (simp add: counters_mutators)
  moreover have "probsExecuted (diagnostics ?r2) = probsExecuted (diagnostics r) + 1"
    using b unfolding r1 by (simp add: counters_mutators)
  ultimately show ?thesis
    unfolding eq by simp
qed

lemma executeProbes_sequential_result:
  "frame r (fst (executeProbes_sequential cfg probes r now))
   \<and> probed r (fst (executeProbes_sequential cfg probes r now)) (length probes)
   \<and> (snd (snd (executeProbes_sequential cfg probes r now)) = None
        \<longrightarrow> probsExecuted (diagnostics (fst (executeProbes_sequential cfg probes r now)))
              = probsExecuted (diagnostics r) + length probes)"
proof (induction probes arbitrary: r now)
  case Nil
  show ?case by (simp add: frame_refl probed_def)
next
  case (Cons p probes)
  obtain r1 t1 exc where e: "executeProbe cfg p r now = (r1, t1, exc)"
    by (cases "executeProbe cfg p r now") auto
  from executeProbe_result[of r cfg p now]
  have f1: "frame r r1" and p1: "probed r r1 1"
    and x1: "probsExecuted (diagnostics r1) = probsExecuted (diagnostics r) + 1"
    unfolding e by simp_all
  show ?case
  proof (cases exc)
    case (Some x)
    have eq: "executeProbes_sequential cfg (p # probes) r now = (r1, t1, Some x)"
      unfolding executeProbes_sequential.simps e Some by simp
    have "probed r r1 (length (p # probes))"
      using p1 by (simp add: probed_def)
    then show ?thesis
      unfolding eq using f1 by simp
  next
    case None
    have eq: "executeProbes_sequential cfg (p # probes) r now
                = executeProbes_sequential cfg probes r1 t1"
      unfolding executeProbes_sequential.simps e None by simp
    let ?rf = "fst (executeProbes_sequential cfg probes r1 t1)"
    from Cons.IH[of r1 t1]
    have k: "frame r1 ?rf" "probed r1 ?rf (length probes)"
      "snd (snd (executeProbes_sequential cfg probes r1 t1)) = None
         \<longrightarrow> probsExecuted (diagnostics ?rf) = probsExecuted (diagnostics r1) + length probes"
      by simp_all
    have "frame r ?rf"
      by (rule frame_trans[OF f1 k(1)])
    moreover have "probed r ?rf (length (p # probes))"
      using probed_trans[OF p1 k(2)] by simp
    moreover have "snd (snd (executeProbes_sequential cfg probes r1 t1)) = None
         \<longrightarrow> probsExecuted (diagnostics ?rf) = probsExecuted (diagnostics r) + length (p # probes)"
      using k(3) x1 by simp
    ultimately show ?thesis
      unfolding eq by simp
  qed
qed

lemma start_all_fold:
  "fold (\<lambda>p (ts, r). case executeProbe_start p r now of (tk, r') \<Rightarrow> (ts @ [tk], r')) probes (ts0, r0)
     = (ts, r) \<Longrightarrow>
   frame r0 r
   \<and> probsExecuted (diagnostics r) = probsExecuted (diagnostics r0) + length probes
   \<and> probsSuccessful (diagnostics r) = probsSuccessful (diagnostics r0)
   \<and> length ts = length ts0 + length probes"
proof (induction probes arbitrary: ts0 r0)
  case Nil
  then show ?case by (simp add: frame_refl)
next
  case (Cons p probes)
  obtain tk r1 where st: "executeProbe_start p r0 now = (tk, r1)"
    by (cases "executeProbe_start p r0 now")
  have r1: "r1 = inc_probsExecuted r0"
    using executeProbe_start_result(1)[of p r0 now] st by simp
  from Cons.prems st
  have "fold (\<lambda>p (ts, r). case executeProbe_start p r now of (tk, r') \<Rightarrow> (ts @ [tk], r')) probes
          (ts0 @ [tk], r1) = (ts, r)"
    by simp
  from Cons.IH[OF this]
  have "frame r1 r" "probsExecuted (diagnostics r) = probsExecuted (diagnostics r1) + length probes"
    "probsSuccessful (diagnostics r) = probsSuccessful (diagnostics r1)"
    "length ts = length (ts0 @ [tk]) + length probes"
    by simp_all
  then show ?case
    using frame_trans[OF frame_mutators(2)[of r0]]
    by (simp add: r1 counters_mutators)
qed

lemma length_buildProbeList:
  "length (buildProbeList cfg conn j) = (if enablePresenceCheck cfg then 4 else 3)"
  by (simp add: buildProbeList_def Let_def)

text \<open>The probing stage calls every probe of the list (unless a probe raises in the
  sequential mode), and counts at most one success for each probe it has called.\<close>

lemma executeProbes_result:
  "frame r (fst (executeProbes cfg conn j r now))
   \<and> probed r (fst (executeProbes cfg conn j r now)) (length (buildProbeList cfg conn j))
   \<and> (snd (snd (executeProbes cfg conn j r now)) = None
        \<longrightarrow> probsExecuted (diagnostics (fst (executeProbes cfg conn j r now)))
              = probsExecuted (diagnostics r) + length (buildProbeList cfg conn j))"
proof (cases "parallelProbes cfg")
  case False
  then have "executeProbes cfg conn j r now
               = executeProbes_sequential cfg (buildProbeList cfg conn j) r now"
    by (simp add: executeProbes_def Let_def)
  then show ?thesis
    using executeProbes_sequential_result[of r cfg "buildProbeList cfg conn j" now] by simp
next
  case True
  let ?probes = "buildProbeList cfg conn j"
  obtain ts r1 where sa: "start_all ?probes r now = (ts, r1)"
    by (cases "start_all ?probes r now")
  then have eq: "fst (executeProbes cfg conn j r now) = fst (snd (run_tasks cfg ts r1 now))"
    using True by (simp add: executeProbes_def Let_def split: prod.splits)
  from start_all_fold[OF sa[unfolded start_all_def]]
  have s: "frame r r1"
    "probsExecuted (diagnostics r1) = probsExecuted (diagnostics r) + length ?probes"
    "probsSuccessful (diagnostics r1) = probsSuccessful (diagnostics r)"
    "length ts = length ?probes"
    by simp_all
  let ?r2 = "fst (snd (run_tasks cfg ts r1 now))"
  have le: "length (filter pending ts) \<le> length ?probes"
    using s(4) length_filter_le[of pending ts] by simp
  from run_tasks_result[of r1 cfg ts now]
  have t: "frame r1 ?r2"
    "probsExecuted (diagnostics ?r2) = probsExecuted (diagnostics r1)"
    "probsSuccessful (diagnostics r1) \<le> probsSuccessful (diagnostics ?r2)"
    "probsSuccessful (diagnostics ?r2) \<le> probsSuccessful (diagnostics r1) + length (filter pending ts)"
    by blast+
  have "probed r ?r2 (length ?probes)"
    using s(2,3) t(2,3,4) le unfolding probed_def by linarith
  moreover have "frame r ?r2"
    by (rule frame_trans[OF s(1) t(1)])
  moreover have "probsExecuted (diagnostics ?r2) = probsExecuted (diagnostics r) + length ?probes"
    using s(2) t(2) by simp
  ultimately show ?thesis
    unfolding eq by simp
qed


section \<open>The pipeline\<close>

subsection \<open>Registration\<close>

lemma checkRegistration_registered:
  assumes "executeWithTimeout (onWhatsApp conn j) (timeout cfg) now = (rep, t)"
    and "registered_by rep"
  shows "checkRegistration cfg conn j r now =
           (inc_probsSuccessful (inc_probsExecuted (push_detectionMethod ''registration_verified''
              (r\<lparr>isRegistered := True, isActive := True\<rparr>))), t, None)"
  using assms
  by (auto simp: checkRegistration_def registered_by_def Let_def
           split: reply.splits option.splits list.splits)

lemma checkRegistration_not_registered:
  assumes "executeWithTimeout (onWhatsApp conn j) (timeout cfg) now = (Resolve check, t)"
    and "\<not> registered_by (Resolve check)"
  shows "checkRegistration cfg conn j r now = (r\<lparr>isRegistered := False, isActive := False\<rparr>, t, None)"
  using assms
  by (auto simp: checkRegistration_def registered_by_def Let_def
           split: reply.splits option.splits list.splits)

lemma checkRegistration_rejected:
  assumes "executeWithTimeout (onWhatsApp conn j) (timeout cfg) now = (Reject err, t)"
  shows "checkRegistration cfg conn j r now =
           (case recordError ''registration'' err r t of
              Inl exc \<Rightarrow> (r, t, Some exc)
            | Inr r1 \<Rightarrow> (r1, t, None))"
  using assms by (simp add: checkRegistration_def)

lemma registered_by_Reject: "\<not> registered_by (Reject err)"
  by (simp add: registered_by_def)

text \<open>The registration check leaves the verdict alone and adds no error detail with the
  code of the top-level handler; both counters go up by one when it reports that the
  account exists, and stay otherwise.\<close>

lemma checkRegistration_result:
  "verdict (fst (checkRegistration cfg conn j r now)) = verdict r
   \<and> (\<exists>es. errorDetails (diagnostics (fst (checkRegistration cfg conn j r now)))
             = errorDetails (diagnostics r) @ es \<and> list_all (\<lambda>e. code e \<noteq> ''FATAL'') es)
   \<and> (if registered_by (fst (executeWithTimeout (onWhatsApp conn j) (timeout cfg) now))
       then probsExecuted (diagnostics (fst (checkRegistration cfg conn j r now)))
              = probsExecuted (diagnostics r) + 1
            \<and> probsSuccessful (diagnostics (fst (checkRegistration cfg conn j r now)))
              = probsSuccessful (diagnostics r) + 1
            \<and> isRegistered (fst (checkRegistration cfg conn j r now))
       else probsExecuted (diagnostics (fst (checkRegistration cfg conn j r now)))
              = probsExecuted (diagnostics r)
            \<and> probsSuccessful (diagnostics (fst (checkRegistration cfg conn j r now)))
              = probsSuccessful (diagnostics r))"
proof -
  obtain rep t where ex: "executeWithTimeout (onWhatsApp conn j) (timeout cfg) now = (rep, t)"
    by (cases "executeWithTimeout (onWhatsApp conn j) (timeout cfg) now")
  show ?thesis
  proof (cases "registered_by rep")
    case True
    show ?thesis
      unfolding checkRegistration_registered[OF ex True] ex
      using True by (simp add: verdict_def mutator_defs)
  next
    case False
    show ?thesis
    proof (cases rep)
      case (Resolve check)
      show ?thesis
        unfolding checkRegistration_not_registered[OF ex[unfolded Resolve] False[unfolded Resolve]] ex
        using False by (simp add: verdict_def)
    next
      case (Reject err)
      show ?thesis
      proof (cases "recordError ''registration'' err r t")
        case (Inl exc)
        show ?thesis
          unfolding checkRegistration_rejected[OF ex[unfolded Reject]] ex Inl
          using False by simp
      next
        case (Inr r1)
        from recordError_Inr[OF Inr] show ?thesis
          unfolding checkRegistration_rejected[OF ex[unfolded Reject]] ex Inr
          using False by (simp add: frame_def)
      qed
    qed
  qed
qed

subsection \<open>Analysis and finalization\<close>

lemma analyzePatterns_result:
  "diagnostics (analyzePatterns r) = diagnostics r"
  "review (analyzePatterns r) = review r"
  "isRegistered (analyzePatterns r) = isRegistered r"
  "isBanned (ban (analyzePatterns r)) \<or> ban (analyzePatterns r) = ban r"
  by (simp_all add: analyzePatterns_def Let_def push_detectionMethod_def
               split: option.splits prod.splits)

lemma patternAnalysis_result:
  "diagnostics (fst (patternAnalysis d r t)) = diagnostics r"
  "review (fst (patternAnalysis d r t)) = review r"
  "isRegistered (fst (patternAnalysis d r t)) = isRegistered r"
  "isBanned (ban (fst (patternAnalysis d r t))) \<or> ban (fst (patternAnalysis d r t)) = ban r"
  using analyzePatterns_result[of r]
  by (simp_all add: patternAnalysis_def push_detectionMethod_def split: option.splits prod.splits)

lemma analyzeReviewOptions_result:
  "diagnostics (analyzeReviewOptions r) = diagnostics r"
  "ban (analyzeReviewOptions r) = ban r"
  "isRegistered (analyzeReviewOptions r) = isRegistered r"
  "\<not> isBanned (ban r) \<Longrightarrow> review (analyzeReviewOptions r) = review r"
  by (simp_all add: analyzeReviewOptions_def split: option.splits)

lemma finalizeResult_result:
  "probsExecuted (diagnostics (finalizeResult r s t)) = probsExecuted (diagnostics r)"
  "probsSuccessful (diagnostics (finalizeResult r s t)) = probsSuccessful (diagnostics r)"
  "errorDetails (diagnostics (finalizeResult r s t)) = errorDetails (diagnostics r)"
  "probeResults (diagnostics (finalizeResult r s t)) = probeResults (diagnostics r)"
  "ban (finalizeResult r s t) = ban r"
  "review (finalizeResult r s t) = review r"
  "isRegistered (finalizeResult r s t) = isRegistered r"
  "\<not> isRegistered r \<Longrightarrow> summary (finalizeResult r s t) = ''Not registered or permanently banned''"
  by (simp_all add: finalizeResult_def)

text \<open>Stage 3 to the end of the pipeline, on a result that came through the probes
  without a verdict.\<close>

lemma analysis_ok:
  assumes "verdict r = (False, NONE, False)"
  shows "\<not> isBanned (ban (finalizeResult (analyzeReviewOptions (fst (patternAnalysis d r t))) s t'))
         \<longrightarrow> \<not> available (review (finalizeResult (analyzeReviewOptions (fst (patternAnalysis d r t))) s t'))
             \<and> ban_type (ban (finalizeResult (analyzeReviewOptions (fst (patternAnalysis d r t))) s t')) = NONE"
proof
  let ?r3 = "fst (patternAnalysis d r t)"
  assume "\<not> isBanned (ban (finalizeResult (analyzeReviewOptions ?r3) s t'))"
  then have nb: "\<not> isBanned (ban ?r3)"
    by (simp add: finalizeResult_result analyzeReviewOptions_result)
  with patternAnalysis_result(4)[of d r t] have "ban ?r3 = ban r" by simp
  with assms nb show "\<not> available (review (finalizeResult (analyzeReviewOptions ?r3) s t'))
             \<and> ban_type (ban (finalizeResult (analyzeReviewOptions ?r3) s t')) = NONE"
    by (simp add: finalizeResult_result analyzeReviewOptions_result patternAnalysis_result verdict_def)
qed

subsection \<open>The four ways through the pipeline\<close>

lemma executePipeline_cases:
  obtains
    (registration_raised) r1 t1 exc where
      "checkRegistration (v_config v) conn j r now = (r1, t1, Some exc)"
      "executePipeline v conn j r now = (r1, v, t1, Some exc)"
  | (not_registered) r1 t1 where
      "checkRegistration (v_config v) conn j r now = (r1, t1, None)"
      "\<not> isRegistered r1"
      "executePipeline v conn j r now =
         (finalizeResult (r1\<lparr>ban := (ban r1)\<lparr>isBanned := True, ban_type := PERMANENT\<rparr>,
                             summary := ''Not registered or permanently banned''\<rparr>) t1 t1,
          v, t1, None)"
  | (probes_raised) r1 t1 r2 t2 exc where
      "checkRegistration (v_config v) conn j r now = (r1, t1, None)"
      "isRegistered r1"
      "executeProbes (v_config v) conn j r1 t1 = (r2, t2, Some exc)"
      "executePipeline v conn j r now = (r2, v, t2, Some exc)"
  | (analysed) r1 t1 r2 t2 where
      "checkRegistration (v_config v) conn j r now = (r1, t1, None)"
      "isRegistered r1"
      "executeProbes (v_config v) conn j r1 t1 = (r2, t2, None)"
      "executePipeline v conn j r now =
         (finalizeResult (analyzeReviewOptions (fst (patternAnalysis (v_mlDetector v) r2 t2))) t2 t2,
          v\<lparr>v_mlDetector := snd (patternAnalysis (v_mlDetector v) r2 t2)\<rparr>, t2, None)"
proof -
  obtain r1 t1 e1 where c: "checkRegistration (v_config v) conn j r now = (r1, t1, e1)"
    by (cases "checkRegistration (v_config v) conn j r now") auto
  show ?thesis
  proof (cases e1)
    case (Some exc)
    with c show ?thesis
      by (intro registration_raised[of r1 t1 exc]) (simp_all add: executePipeline_def)
  next
    case None
    note e1 = this
    show ?thesis
    proof (cases "isRegistered r1")
      case False
      with c e1 show ?thesis
        by (intro not_registered[of r1 t1]) (simp_all add: executePipeline_def)
    next
      case True
      obtain r2 t2 e2 where p: "executeProbes (v_config v) conn j r1 t1 = (r2, t2, e2)"
        by (cases "executeProbes (v_config v) conn j r1 t1") auto
      show ?thesis
      proof (cases e2)
        case (Some exc)
        with c e1 True p show ?thesis
          by (intro probes_raised[of r1 t1 r2 t2 exc]) (simp_all add: executePipeline_def)
      next
        case None
        with c e1 True p show ?thesis
          by (intro analysed[of r1 t1 r2 t2])
            (simp_all add: executePipeline_def split: prod.splits)
      qed
    qed
  qed
qed

lemma executePipeline_validator:
  "v_cache (fst (snd (executePipeline v conn j r now))) = v_cache v"
  "v_config (fst (snd (executePipeline v conn j r now))) = v_config v"
  "v_rateLimiter (fst (snd (executePipeline v conn j r now))) = v_rateLimiter v"
  by (cases rule: executePipeline_cases[of v conn j r now]; simp)+

text \<open>The pipeline, started on a result without a verdict, ends with a result that
  satisfies the invariant, whether it raises or not.\<close>

lemma executePipeline_ok:
  assumes "verdict r = (False, NONE, False)"
    and "probsSuccessful (diagnostics r) \<le> probsExecuted (diagnostics r)"
  shows "result_ok (fst (executePipeline v conn j r now))"
proof -
  let ?cfg = "v_config v"
  let ?r1 = "fst (checkRegistration ?cfg conn j r now)"
  from checkRegistration_result[of ?cfg conn j r now]
  have v1: "verdict ?r1 = (False, NONE, False)"
    and c1: "probsSuccessful (diagnostics ?r1) \<le> probsExecuted (diagnostics ?r1)"
    using assms by (auto split: if_splits)
  have ok1: "result_ok ?r1"
    using v1 c1 by (simp add: result_ok_def verdict_def)
  have probes: "result_ok (fst (executeProbes ?cfg conn j ?r1 t))" for t
  proof -
    from executeProbes_result[of ?r1 ?cfg conn j t]
    have "frame ?r1 (fst (executeProbes ?cfg conn j ?r1 t))"
      and "probed ?r1 (fst (executeProbes ?cfg conn j ?r1 t)) (length (buildProbeList ?cfg conn j))"
      by simp_all
    then show ?thesis
      using v1 c1 by (simp add: result_ok_def verdict_def frame_def probed_def)
  qed
  show ?thesis
  proof (cases rule: executePipeline_cases[of v conn j r now])
    case (registration_raised r1 t1 exc)
    then show ?thesis using ok1 by simp
  next
    case (not_registered r1 t1)
    then show ?thesis
      using c1 by (simp add: result_ok_def finalizeResult_result)
  next
    case (probes_raised r1 t1 r2 t2 exc)
    then show ?thesis using probes[of t1] by simp
  next
    case (analysed r1 t1 r2 t2)
    have r2: "r2 = fst (executeProbes ?cfg conn j ?r1 t1)"
      using analysed(1,3) by simp
    from executeProbes_result[of ?r1 ?cfg conn j t1]
    have "frame ?r1 r2" unfolding r2 by simp
    then have v2: "verdict r2 = (False, NONE, False)"
      using v1 by (simp add: frame_def)
    have c2: "probsSuccessful (diagnostics r2) \<le> probsExecuted (diagnostics r2)"
      using probes[of t1] unfolding r2 by (simp add: result_ok_def)
    show ?thesis
      unfolding analysed(4) fst_conv result_ok_def
      using analysis_ok[OF v2, of "v_mlDetector v" t2 t2 t2] c2
      by (simp add: finalizeResult_result analyzeReviewOptions_result patternAnalysis_result)
  qed
qed

lemma executePipeline_errorDetails:
  assumes "list_all (\<lambda>e. code e \<noteq> ''FATAL'') (errorDetails (diagnostics r))"
  shows "list_all (\<lambda>e. code e \<noteq> ''FATAL'')
           (errorDetails (diagnostics (fst (executePipeline v conn j r now))))"
proof -
  let ?cfg = "v_config v"
  let ?r1 = "fst (checkRegistration ?cfg conn j r now)"
  from checkRegistration_result[of ?cfg conn j r now] assms
  have e1: "list_all (\<lambda>e. code e \<noteq> ''FATAL'') (errorDetails (diagnostics ?r1))"
    by auto
  have e2: "list_all (\<lambda>e. code e \<noteq> ''FATAL'')
              (errorDetails (diagnostics (fst (executeProbes ?cfg conn j ?r1 t))))" for t
    using executeProbes_result[of ?r1 ?cfg conn j t] e1 by (auto simp: frame_def)
  show ?thesis
  proof (cases rule: executePipeline_cases[of v conn j r now])
    case (registration_raised r1 t1 exc)
    then show ?thesis using e1 by simp
  next
    case (not_registered r1 t1)
    then show ?thesis
      using e1 by (simp add: finalizeResult_result)
  next
    case (probes_raised r1 t1 r2 t2 exc)
    then show ?thesis using e2[of t1] by simp
  next
    case (analysed r1 t1 r2 t2)
    then show ?thesis
      using e2[of t1]
      by (simp add: finalizeResult_result analyzeReviewOptions_result patternAnalysis_result)
  qed
qed

subsection \<open>The parts of \<open>validate\<close>\<close>

lemma rate_limiting_validator:
  "v_cache (fst (rate_limiting v now late)) = v_cache v"
  "v_config (fst (rate_limiting v now late)) = v_config v"
  "v_mlDetector (fst (rate_limiting v now late)) = v_mlDetector v"
  by (simp_all add: rate_limiting_def split: option.splits prod.splits)

lemma check_cache_validator:
  "v_config (snd (check_cache v p options t)) = v_config v"
  "v_mlDetector (snd (check_cache v p options t)) = v_mlDetector v"
  by (simp_all add: check_cache_def split: option.splits prod.splits)

lemma validate_hit:
  assumes "cached_result v late p options now = Some r"
  shows "fst (validate v conn late p options now) = r"
    and "fst (snd (validate v conn late p options now))
           = snd (check_cache (fst (rate_limiting v now late)) p options (snd (rate_limiting v now late)))"
proof -
  obtain v1 t1 where rl: "rate_limiting v now late = (v1, t1)"
    by (cases "rate_limiting v now late")
  obtain c v2 where cc: "check_cache v1 p options t1 = (c, v2)"
    by (cases "check_cache v1 p options t1")
  from assms have c: "c = Some r"
    by (simp add: cached_result_def rl cc)
  show "fst (validate v conn late p options now) = r"
    and "fst (snd (validate v conn late p options now))
           = snd (check_cache (fst (rate_limiting v now late)) p options (snd (rate_limiting v now late)))"
    by (simp_all add: validate_def rl cc c)
qed

lemma validate_miss:
  assumes "cached_result v late p options now = None"
  shows "validate v conn late p options now =
           (case pipeline_run v conn late p options now of
              (r, v3, t2, None) \<Rightarrow>
                (r, v3\<lparr>v_cache := map_option (\<lambda>c. cache_set c (cacheKey p) r t2) (v_cache v3)\<rparr>, t2)
            | (r, v3, t2, Some exc) \<Rightarrow>
                (push_errorDetail
                   \<lparr>stage = ''critical'', error = exception_message exc, code = ''FATAL'',
                    timestamp = None\<rparr>
                   (r\<lparr>summary := ''Critical validation error''\<rparr>),
                 v3, t2))"
proof -
  obtain v1 t1 where rl: "rate_limiting v now late = (v1, t1)"
    by (cases "rate_limiting v now late")
  obtain c v2 where cc: "check_cache v1 p options t1 = (c, v2)"
    by (cases "check_cache v1 p options t1")
  from assms have c: "c = None"
    by (simp add: cached_result_def rl cc)
  show ?thesis
    by (simp add: validate_def pipeline_run_def rl cc c Let_def)
qed

lemma createResultObject_fresh:
  "verdict (createResultObject p j t) = (False, NONE, False)"
  "probsExecuted (diagnostics (createResultObject p j t)) = 0"
  "probsSuccessful (diagnostics (createResultObject p j t)) = 0"
  "errorDetails (diagnostics (createResultObject p j t)) = []"
  "probeResults (diagnostics (createResultObject p j t)) = []"
  "\<not> isRegistered (createResultObject p j t)"
  by (simp_all add: createResultObject_def verdict_def)


section \<open>The results of \<open>validate\<close>\<close>

subsection \<open>An account that is not registered\<close>

text \<open>
  C1. When the cache has no result for the number and the registration check reports
  that the account does not exist, \<open>validate\<close> returns a result that is banned, of type
  Permanent, without review, with the summary "Not registered or permanently banned";
  no probe was executed (the counters are 0 and no probe result is recorded) and the
  detector is as it was.
\<close>

theorem validate_not_registered:
  assumes "cached_result v late p options now = None"
    and "registration_reply v conn late p now = Resolve check"
    and "\<not> registered_by (Resolve check)"
  shows "isBanned (ban (fst (validate v conn late p options now)))
    \<and> ban_type (ban (fst (validate v conn late p options now))) = PERMANENT
    \<and> \<not> available (review (fst (validate v conn late p options now)))
    \<and> summary (fst (validate v conn late p options now)) = ''Not registered or permanently banned''
    \<and> probsExecuted (diagnostics (fst (validate v conn late p options now))) = 0
    \<and> probsSuccessful (diagnostics (fst (validate v conn late p options now))) = 0
    \<and> probeResults (diagnostics (fst (validate v conn late p options now))) = []
    \<and> v_mlDetector (fst (snd (validate v conn late p options now))) = v_mlDetector v"
proof -
  obtain v1 t1 where rl: "rate_limiting v now late = (v1, t1)"
    by (cases "rate_limiting v now late")
  let ?v2 = "snd (check_cache v1 p options t1)"
  let ?j = "normalizeJID p"
  let ?r0 = "createResultObject p ?j t1"
  have cfg: "v_config ?v2 = v_config v"
    using rate_limiting_validator(2)[of v now late] by (simp add: check_cache_validator rl)
  have ml: "v_mlDetector ?v2 = v_mlDetector v"
    using rate_limiting_validator(3)[of v now late] by (simp add: check_cache_validator rl)
  obtain rep t where ex: "executeWithTimeout (onWhatsApp conn ?j) (timeout (v_config v)) t1 = (rep, t)"
    by (cases "executeWithTimeout (onWhatsApp conn ?j) (timeout (v_config v)) t1")
  with assms(2) have rep: "rep = Resolve check"
    by (simp add: registration_reply_def rl)
  have reg: "checkRegistration (v_config ?v2) conn ?j ?r0 t1
               = (?r0\<lparr>isRegistered := False, isActive := False\<rparr>, t, None)"
    unfolding cfg by (rule checkRegistration_not_registered[OF ex[unfolded rep] assms(3)])
  let ?r1 = "?r0\<lparr>isRegistered := False, isActive := False\<rparr>"
  have run: "pipeline_run v conn late p options now =
               (finalizeResult (?r1\<lparr>ban := (ban ?r1)\<lparr>isBanned := True, ban_type := PERMANENT\<rparr>,
                                    summary := ''Not registered or permanently banned''\<rparr>) t t,
                ?v2, t, None)"
    by (simp add: pipeline_run_def rl executePipeline_def reg)
  show ?thesis
    unfolding validate_miss[OF assms(1)] run
    by (simp add: finalizeResult_result ml) (simp add: createResultObject_def)
qed

theorem validate_not_registered_witness:
  "cached_result (new_validator default_config) [] ''+20 123'' \<lparr>skipCache = False\<rparr> 1000 = None
   \<and> registration_reply (new_validator default_config)
        (answering (Resolve (Some [False])) (Resolve Opaque)) [] ''+20 123'' 1000
       = Resolve (Some [False])
   \<and> ban_type (ban (fst (validate (new_validator default_config)
        (answering (Resolve (Some [False])) (Resolve Opaque)) [] ''+20 123''
        \<lparr>skipCache = False\<rparr> 1000))) = PERMANENT
   \<and> probsExecuted (diagnostics (fst (validate (new_validator default_config)
        (answering (Resolve (Some [False])) (Resolve Opaque)) [] ''+20 123''
        \<lparr>skipCache = False\<rparr> 1000))) = 0"
proof -
  have h1: "cached_result (new_validator default_config) [] ''+20 123'' \<lparr>skipCache = False\<rparr> 1000 = None"
    by code_simp
  have h2: "registration_reply (new_validator default_config)
              (answering (Resolve (Some [False])) (Resolve Opaque)) [] ''+20 123'' 1000
            = Resolve (Some [False])"
    by code_simp
  have h3: "\<not> registered_by (Resolve (Some [False]))"
    by (simp add: registered_by_def)
  show ?thesis
    using h1 h2 validate_not_registered[OF h1 h2 h3] by simp
qed

subsection \<open>An exception in the pipeline\<close>

text \<open>
  C9. \<open>validate\<close> returns a result object whatever the pipeline does. When the pipeline
  raises an exception (the cache having no result for the number), \<open>validate\<close> returns
  the result object as the pipeline left it, with the summary "Critical validation
  error" and one more error detail, of stage "critical" and code FATAL, that holds the
  message of the exception; it is the only error detail with that code.
\<close>

theorem validate_catches_exception:
  assumes "cached_result v late p options now = None"
    and "snd (snd (snd (pipeline_run v conn late p options now))) = Some exc"
  shows "summary (fst (validate v conn late p options now)) = ''Critical validation error''
    \<and> errorDetails (diagnostics (fst (validate v conn late p options now)))
        = errorDetails (diagnostics (fst (pipeline_run v conn late p options now)))
          @ [\<lparr>stage = ''critical'', error = exception_message exc, code = ''FATAL'',
              timestamp = None\<rparr>]
    \<and> length (filter (\<lambda>e. code e = ''FATAL'')
                (errorDetails (diagnostics (fst (validate v conn late p options now))))) = 1"
proof -
  obtain r v3 t2 where run: "pipeline_run v conn late p options now = (r, v3, t2, Some exc)"
    using assms(2) by (cases "pipeline_run v conn late p options now") auto
  have "list_all (\<lambda>e. code e \<noteq> ''FATAL'')
          (errorDetails (diagnostics (fst (pipeline_run v conn late p options now))))"
    unfolding pipeline_run_def
    by (auto split: prod.splits intro!: executePipeline_errorDetails
             simp: createResultObject_fresh)
  then have "filter (\<lambda>e. code e = ''FATAL'') (errorDetails (diagnostics r)) = []"
    unfolding run by (simp add: filter_empty_conv list_all_iff)
  then show ?thesis
    unfolding validate_miss[OF assms(1)] run
    by (simp add: push_errorDetail_def)
qed

theorem validate_catches_exception_witness:
  "cached_result (new_validator default_config) [] ''+20 123'' \<lparr>skipCache = False\<rparr> 1000 = None
   \<and> snd (snd (snd (pipeline_run (new_validator default_config)
        (answering (Reject Undefined) (Resolve Opaque)) [] ''+20 123'' \<lparr>skipCache = False\<rparr> 1000)))
       = Some (read_message_of_nullish ''undefined'')
   \<and> summary (fst (validate (new_validator default_config)
        (answering (Reject Undefined) (Resolve Opaque)) [] ''+20 123'' \<lparr>skipCache = False\<rparr> 1000))
       = ''Critical validation error''"
proof -
  have h1: "cached_result (new_validator default_config) [] ''+20 123'' \<lparr>skipCache = False\<rparr> 1000 = None"
    by code_simp
  have h2: "snd (snd (snd (pipeline_run (new_validator default_config)
              (answering (Reject Undefined) (Resolve Opaque)) [] ''+20 123'' \<lparr>skipCache = False\<rparr> 1000)))
            = Some (read_message_of_nullish ''undefined'')"
    by code_simp
  show ?thesis
    using h1 h2 validate_catches_exception[OF h1 h2] by simp
qed

subsection \<open>The invariant of the results\<close>

lemma list_all_update:
  "list_all P al \<Longrightarrow> P (k, x) \<Longrightarrow> list_all P (AList.update k x al)"
  by (induction al) auto

lemma list_all_delete:
  "list_all P al \<Longrightarrow> list_all P (AList.delete k al)"
  by (induction al) auto

lemma cache_get_ok:
  assumes "list_all (\<lambda>(key, entry). P (data entry)) (cache c)"
  shows "list_all (\<lambda>(key, entry). P (data entry)) (cache (snd (cache_get c k t)))"
    and "fst (cache_get c k t) = Some r \<Longrightarrow> P r"
proof -
  have entry: "P (data e)" if "map_of (cache c) k = Some e" for e
    using assms map_of_SomeD[OF that] by (auto simp: list_all_iff)
  show "list_all (\<lambda>(key, entry). P (data entry)) (cache (snd (cache_get c k t)))"
    using assms entry
    by (auto simp: cache_get_def intro!: list_all_update list_all_delete split: option.splits)
  show "fst (cache_get c k t) = Some r \<Longrightarrow> P r"
    using entry by (auto simp: cache_get_def split: option.splits if_splits)
qed

lemma cache_set_ok:
  assumes "list_all (\<lambda>(key, entry). P (data entry)) (cache c)" and "P r"
  shows "list_all (\<lambda>(key, entry). P (data entry)) (cache (cache_set c k r t))"
proof -
  have "list_all (\<lambda>(key, entry). P (data entry)) (cache (evictLRU c))"
    using assms(1) by (auto simp: evictLRU_def intro!: list_all_delete split: option.splits)
  then show ?thesis
    using assms by (auto simp: cache_set_def Let_def intro!: list_all_update)
qed

lemma check_cache_ok:
  assumes "cache_ok v"
  shows "cache_ok (snd (check_cache v p options t))"
    and "fst (check_cache v p options t) = Some r \<Longrightarrow> result_ok r"
proof -
  show "cache_ok (snd (check_cache v p options t))"
  proof (cases "v_cache v")
    case None
    then show ?thesis using assms by (simp add: check_cache_def)
  next
    case (Some c)
    with assms have "list_all (\<lambda>(key, entry). result_ok (data entry)) (cache c)"
      by (simp add: cache_ok_def)
    from cache_get_ok(1)[OF this, of "cacheKey p" t] Some assms show ?thesis
      by (cases "cache_get c (cacheKey p) t") (simp add: check_cache_def cache_ok_def)
  qed
  show "fst (check_cache v p options t) = Some r \<Longrightarrow> result_ok r"
  proof (cases "v_cache v")
    case None
    then show "fst (check_cache v p options t) = Some r \<Longrightarrow> result_ok r"
      by (simp add: check_cache_def)
  next
    case (Some c)
    with assms have "list_all (\<lambda>(key, entry). result_ok (data entry)) (cache c)"
      by (simp add: cache_ok_def)
    from cache_get_ok(2)[OF this, of "cacheKey p" t r] Some
    show "fst (check_cache v p options t) = Some r \<Longrightarrow> result_ok r"
      by (cases "cache_get c (cacheKey p) t") (auto simp: check_cache_def split: if_splits)
  qed
qed

lemma cache_ok_new_validator: "cache_ok (new_validator cfg)"
  by (simp add: cache_ok_def new_validator_def new_ValidationCache_def)

text \<open>One call of \<open>validate\<close> on a validator whose cached results satisfy the invariant.\<close>

lemma validate_ok:
  assumes "cache_ok v"
  shows "result_ok (fst (validate v conn late p options now))"
    and "cache_ok (fst (snd (validate v conn late p options now)))"
proof -
  obtain v1 t1 where rl: "rate_limiting v now late = (v1, t1)"
    by (cases "rate_limiting v now late")
  have ok1: "cache_ok v1"
    using assms rate_limiting_validator(1)[of v now late] by (simp add: cache_ok_def rl)
  let ?v2 = "snd (check_cache v1 p options t1)"
  have ok2: "cache_ok ?v2"
    by (rule check_cache_ok(1)[OF ok1])
  have "result_ok (fst (validate v conn late p options now))
        \<and> cache_ok (fst (snd (validate v conn late p options now)))"
  proof (cases "cached_result v late p options now")
    case (Some r)
    then have "fst (check_cache v1 p options t1) = Some r"
      by (simp add: cached_result_def rl)
    from check_cache_ok(2)[OF ok1 this] ok2 show ?thesis
      unfolding validate_hit[OF Some] by (simp add: rl)
  next
    case None
    let ?j = "normalizeJID p"
    let ?r0 = "createResultObject p ?j t1"
    obtain r v3 t2 exc where run: "executePipeline ?v2 conn ?j ?r0 t1 = (r, v3, t2, exc)"
      by (cases "executePipeline ?v2 conn ?j ?r0 t1") auto
    have prun: "pipeline_run v conn late p options now = (r, v3, t2, exc)"
      by (simp add: pipeline_run_def rl run)
    have okr: "result_ok r"
      using executePipeline_ok[of ?r0 ?v2 conn ?j t1] run
      by (simp add: createResultObject_fresh)
    have c3: "v_cache v3 = v_cache ?v2"
      using executePipeline_validator(1)[of ?v2 conn ?j ?r0 t1] run by simp
    then have ok3: "cache_ok v3"
      using ok2 by (simp add: cache_ok_def)
    show ?thesis
    proof (cases exc)
      case (Some e)
      have "result_ok (push_errorDetail
                         \<lparr>stage = ''critical'', error = exception_message e, code = ''FATAL'',
                          timestamp = None\<rparr>
                         (r\<lparr>summary := ''Critical validation error''\<rparr>))"
        using okr by (simp add: result_ok_def push_errorDetail_def)
      then show ?thesis
        unfolding validate_miss[OF None] prun Some using ok3 by simp
    next
      case None' : None
      have "cache_ok (v3\<lparr>v_cache := map_option (\<lambda>c. cache_set c (cacheKey p) r t2) (v_cache v3)\<rparr>)"
      proof (cases "v_cache v3")
        case None
        then show ?thesis by (simp add: cache_ok_def)
      next
        case (Some c)
        with ok3 have "list_all (\<lambda>(key, entry). result_ok (data entry)) (cache c)"
          by (simp add: cache_ok_def)
        from cache_set_ok[OF this okr, of "cacheKey p" t2] Some show ?thesis
          by (simp add: cache_ok_def)
      qed
      then show ?thesis
        unfolding validate_miss[OF None] prun None' using okr by simp
    qed
  qed
  then show "result_ok (fst (validate v conn late p options now))"
    and "cache_ok (fst (snd (validate v conn late p options now)))"
    by simp_all
qed

lemma validate_calls_ok:
  "cache_ok v \<Longrightarrow> list_all result_ok (validate_calls v calls)"
proof (induction calls arbitrary: v)
  case Nil
  then show ?case by simp
next
  case (Cons call calls)
  obtain conn late p options now where call: "call = (conn, late, p, options, now)"
    by (cases call) auto
  obtain r v' t where val: "validate v conn late p options now = (r, v', t)"
    by (cases "validate v conn late p options now") auto
  from validate_ok[OF Cons.prems, of conn late p options now] val
  have "result_ok r" "cache_ok v'" by simp_all
  with Cons.IH[of v'] show ?case
    by (simp add: call val)
qed

text \<open>
  C2. Every result that \<open>validate\<close> returns, in any number of calls made one after the
  other on a new validator, has no more successful probes than executed ones, and if it
  is not banned it has no review available and the ban type None. (The result of a call
  satisfies this whenever the results in the cache do, and so do the results in the
  cache afterwards.)
\<close>

theorem validate_results_ok:
  "list_all (\<lambda>r. probsSuccessful (diagnostics r) \<le> probsExecuted (diagnostics r)
               \<and> (\<not> isBanned (ban r) \<longrightarrow> \<not> available (review r) \<and> ban_type (ban r) = NONE))
     (validate_calls (new_validator cfg) calls)"
  using validate_calls_ok[OF cache_ok_new_validator, of cfg calls]
  by (simp add: result_ok_def[abs_def])

theorem validate_results_ok_witness:
  "map (\<lambda>r. (probsSuccessful (diagnostics r), probsExecuted (diagnostics r), isBanned (ban r),
              ban_type (ban r), available (review r)))
     (validate_calls (new_validator (default_config\<lparr>enablePresenceCheck := False\<rparr>))
        [(answering (Resolve (Some [True])) (Resolve Opaque), [], ''+20 123'',
          \<lparr>skipCache = False\<rparr>, 1000)])
   = [(4, 4, False, NONE, False)]"
proof -
  have "map (\<lambda>r. (probsSuccessful (diagnostics r), probsExecuted (diagnostics r), isBanned (ban r),
              ban_type (ban r), available (review r)))
     (validate_calls (new_validator (default_config\<lparr>enablePresenceCheck := False\<rparr>))
        [(answering (Resolve (Some [True])) (Resolve Opaque), [], ''+20 123'',
          \<lparr>skipCache = False\<rparr>, 1000)])
   = [(4, 4, False, NONE, False)]"
    by code_simp
  then show ?thesis
    using validate_results_ok[of "default_config\<lparr>enablePresenceCheck := False\<rparr>"
        "[(answering (Resolve (Some [True])) (Resolve Opaque), [], ''+20 123'',
          \<lparr>skipCache = False\<rparr>, 1000)]"]
    by simp
qed

subsection \<open>The cache key\<close>

lemma check_cache_cache:
  "v_cache v = Some c \<Longrightarrow> \<exists>c'. v_cache (snd (check_cache v p options t)) = Some c'"
  by (cases "cache_get c (cacheKey p) t") (simp add: check_cache_def)

text \<open>
  C7, as the code has it. The cache key of \<open>validate\<close> is the tag "validate:" followed by
  the phone number as it was given, not by the normalized identifier: the lookup reads
  the cache under this key, and a run of the pipeline that does not raise stores its
  result under it. Two inputs have the same key only if they are the same string.
\<close>

theorem cache_key_is_raw_number:
  "cacheKey p = ''validate:'' @ p
   \<and> (cacheKey p = cacheKey q \<longleftrightarrow> p = q)
   \<and> (v_cache v = Some c \<and> \<not> skipCache options
        \<longrightarrow> fst (check_cache v p options t) = fst (cache_get c (''validate:'' @ p) t))
   \<and> (v_cache v \<noteq> None \<and> cached_result v late p options now = None
        \<and> snd (snd (snd (pipeline_run v conn late p options now))) = None
        \<longrightarrow> (\<exists>c' e. v_cache (fst (snd (validate v conn late p options now))) = Some c'
                    \<and> map_of (cache c') (''validate:'' @ p) = Some e
                    \<and> data e = fst (validate v conn late p options now)))"
proof (intro conjI impI)
  show "cacheKey p = ''validate:'' @ p"
    by (simp add: cacheKey_def)
  show "cacheKey p = cacheKey q \<longleftrightarrow> p = q"
    by (simp add: cacheKey_def)
next
  assume "v_cache v = Some c \<and> \<not> skipCache options"
  then show "fst (check_cache v p options t) = fst (cache_get c (''validate:'' @ p) t)"
    by (cases "cache_get c (cacheKey p) t") (simp add: check_cache_def cacheKey_def)
next
  assume a: "v_cache v \<noteq> None \<and> cached_result v late p options now = None
        \<and> snd (snd (snd (pipeline_run v conn late p options now))) = None"
  obtain v1 t1 where rl: "rate_limiting v now late = (v1, t1)"
    by (cases "rate_limiting v now late")
  have "v_cache v1 = v_cache v"
    using rate_limiting_validator(1)[of v now late] by (simp add: rl)
  with a obtain c1 where "v_cache v1 = Some c1" by auto
  from check_cache_cache[OF this, of p options t1]
  obtain c2 where c2: "v_cache (snd (check_cache v1 p options t1)) = Some c2" ..
  obtain r v3 t2 where run: "pipeline_run v conn late p options now = (r, v3, t2, None)"
    using a by (cases "pipeline_run v conn late p options now") auto
  have "v_cache v3 = Some c2"
    using executePipeline_validator(1)[of "snd (check_cache v1 p options t1)" conn "normalizeJID p"
            "createResultObject p (normalizeJID p) t1" t1] run c2
    by (simp add: pipeline_run_def rl)
  then show "\<exists>c' e. v_cache (fst (snd (validate v conn late p options now))) = Some c'
                    \<and> map_of (cache c') (''validate:'' @ p) = Some e
                    \<and> data e = fst (validate v conn late p options now)"
    using a unfolding validate_miss[OF a[THEN conjunct2, THEN conjunct1]] run
    by (simp add: cache_set_def Let_def update_conv' cacheKey_def)
qed

theorem cache_key_is_raw_number_witness:
  "cached_result (new_validator default_config) [] ''+1'' \<lparr>skipCache = False\<rparr> 1000 = None
   \<and> snd (snd (snd (pipeline_run (new_validator default_config)
        (answering (Resolve (Some [False])) (Resolve Opaque)) [] ''+1'' \<lparr>skipCache = False\<rparr> 1000)))
       = None
   \<and> map_option (\<lambda>c. map fst (cache c))
        (v_cache (fst (snd (validate (new_validator default_config)
           (answering (Resolve (Some [False])) (Resolve Opaque)) [] ''+1'' \<lparr>skipCache = False\<rparr> 1000))))
       = Some [''validate:+1'']"
proof -
  let ?v = "new_validator default_config"
  let ?conn = "answering (Resolve (Some [False])) (Resolve Opaque)"
  have h0: "v_cache ?v \<noteq> None"
    by (simp add: new_validator_def default_config_def)
  have h1: "cached_result ?v [] ''+1'' \<lparr>skipCache = False\<rparr> 1000 = None"
    by code_simp
  have h2: "snd (snd (snd (pipeline_run ?v ?conn [] ''+1'' \<lparr>skipCache = False\<rparr> 1000))) = None"
    by code_simp
  have h3: "map_option (\<lambda>c. map fst (cache c))
              (v_cache (fst (snd (validate ?v ?conn [] ''+1'' \<lparr>skipCache = False\<rparr> 1000))))
            = Some [''validate:+1'']"
    by code_simp
  show ?thesis
    using h0 h1 h2 h3
      cache_key_is_raw_number[of "''+1''" "''1''" ?v _ "\<lparr>skipCache = False\<rparr>" 0 "[]" 1000 ?conn]
    by simp
qed

text \<open>
  C7 as stated fails: "+1" and "1" have the same normalized identifier, but their cache
  keys differ, and neither key is the tag followed by the normalized identifier.
\<close>

theorem cache_key_counterexample:
  "normalizeJID ''+1'' = normalizeJID ''1''
   \<and> cacheKey ''+1'' \<noteq> cacheKey ''1''
   \<and> cacheKey ''+1'' \<noteq> ''validate:'' @ normalizeJID ''+1''"
  by code_simp

subsection \<open>The confidence of a prediction\<close>

lemma patternAnalysis_Some:
  assumes "fst (analyze d (errorDetails (diagnostics result)) (probe_successRate result) now)
             = \<lparr>pr_type = b, pr_score = s, pr_confidence = c, pr_matchCount = m\<rparr>"
    and "b \<noteq> NONE"
  shows "mlConfidence (ban (fst (patternAnalysis (Some d) result now))) = Some c"
    and "ban_type (ban (fst (patternAnalysis (Some d) result now))) = b"
    and "isBanned (ban (fst (patternAnalysis (Some d) result now)))"
  using assms
  by (cases "analyze d (errorDetails (diagnostics result)) (probe_successRate result) now";
      simp add: patternAnalysis_def push_detectionMethod_def)+

text \<open>
  C6, as the code has it. When the best normalized score is at least 0.3, \<open>analyze\<close>
  returns a candidate of the highest normalized score: its kind, its normalized score in
  the field \<open>score\<close>, its match count, and as \<open>confidence\<close> the base confidence of its
  pattern if something matched, 0 if nothing did. The pipeline records this \<open>confidence\<close>
  as \<open>mlConfidence\<close>.
\<close>

theorem analyze_returns_base_confidence:
  assumes "\<exists>x \<in> set (calculateScores (extractFeatures errs rate)). 3 / 10 \<le> normalized (snd x)"
  shows "\<exists>x \<in> set ERROR_PATTERNS.
           (\<forall>y \<in> set (calculateScores (extractFeatures errs rate)).
               normalized (snd y) \<le> normalized (pattern_score (extractFeatures errs rate) (snd x)))
           \<and> confidence (snd x) \<in> {85 / 100, 90 / 100, 95 / 100}
           \<and> fst (analyze d errs rate now) =
               \<lparr>pr_type = fst x,
                pr_score = Some (normalized (pattern_score (extractFeatures errs rate) (snd x))),
                pr_confidence =
                  (if sd_matchCount (pattern_score (extractFeatures errs rate) (snd x)) > 0
                   then confidence (snd x) else 0),
                pr_matchCount = Some (sd_matchCount (pattern_score (extractFeatures errs rate) (snd x)))\<rparr>
           \<and> (errs = errorDetails (diagnostics result) \<and> rate = probe_successRate result
                \<longrightarrow> mlConfidence (ban (fst (patternAnalysis (Some d) result now))) =
                      Some (if sd_matchCount (pattern_score (extractFeatures errs rate) (snd x)) > 0
                            then confidence (snd x) else 0)
                    \<and> ban_type (ban (fst (patternAnalysis (Some d) result now))) = fst x)"
proof -
  let ?f = "extractFeatures errs rate"
  from makePrediction_some[OF assms]
  obtain z where z: "z \<in> set (calculateScores ?f)"
      "makePrediction (calculateScores ?f) =
         \<lparr>pr_type = fst z, pr_score = Some (normalized (snd z)),
          pr_confidence = sd_confidence (snd z), pr_matchCount = Some (sd_matchCount (snd z))\<rparr>"
      "\<forall>y \<in> set (calculateScores ?f). normalized (snd y) \<le> normalized (snd z)"
    by blast
  from z(1) obtain x where x: "x \<in> set ERROR_PATTERNS" "z = (fst x, pattern_score ?f (snd x))"
    by (auto simp: calculateScores_def)
  have conf: "sd_confidence (pattern_score ?f (snd x))
                = (if sd_matchCount (pattern_score ?f (snd x)) > 0 then confidence (snd x) else 0)"
    by (simp add: pattern_score_fields)
  have pred: "fst (analyze d errs rate now) =
               \<lparr>pr_type = fst x, pr_score = Some (normalized (pattern_score ?f (snd x))),
                pr_confidence = (if sd_matchCount (pattern_score ?f (snd x)) > 0
                                 then confidence (snd x) else 0),
                pr_matchCount = Some (sd_matchCount (pattern_score ?f (snd x)))\<rparr>"
    unfolding fst_analyze z(2) x(2) using conf by simp
  have kind: "fst x \<noteq> NONE"
    using x(1) by (auto simp: ERROR_PATTERNS_def)
  have pipe: "mlConfidence (ban (fst (patternAnalysis (Some d) result now))) =
                Some (if sd_matchCount (pattern_score ?f (snd x)) > 0 then confidence (snd x) else 0)
              \<and> ban_type (ban (fst (patternAnalysis (Some d) result now))) = fst x"
    if "errs = errorDetails (diagnostics result) \<and> rate = probe_successRate result"
    using patternAnalysis_Some(1,2)[OF pred[unfolded that[THEN conjunct1] that[THEN conjunct2]] kind]
    unfolding that[THEN conjunct1] that[THEN conjunct2] by simp
  have base: "confidence (snd x) \<in> {85 / 100, 90 / 100, 95 / 100}"
    using x(1) by (auto simp: ERROR_PATTERNS_def)
  show ?thesis
    using x(1) z(3) pred pipe base unfolding x(2) by (intro bexI[of _ x]) auto
qed

theorem analyze_returns_base_confidence_witness:
  "pr_type (fst (analyze new_MLPatternDetector permanent_evidence None 0)) = PERMANENT
   \<and> pr_confidence (fst (analyze new_MLPatternDetector permanent_evidence None 0)) = 95 / 100"
proof -
  have h: "\<exists>x \<in> set (calculateScores (extractFeatures permanent_evidence None)).
             3 / 10 \<le> normalized (snd x)"
    by code_simp
  have "pr_type (fst (analyze new_MLPatternDetector permanent_evidence None 0)) = PERMANENT
   \<and> pr_confidence (fst (analyze new_MLPatternDetector permanent_evidence None 0)) = 95 / 100"
    by code_simp
  then show ?thesis
    using h analyze_returns_base_confidence[OF h, of new_MLPatternDetector 0] by simp
qed

text \<open>
  C6 as stated fails: for the evidence "Account permanently terminated account_deleted"
  the winning normalized score is 1, and the confidence returned is 0.95.
\<close>

theorem analyze_confidence_counterexample:
  "pr_type (fst (analyze new_MLPatternDetector permanent_evidence None 0)) = PERMANENT
   \<and> pr_score (fst (analyze new_MLPatternDetector permanent_evidence None 0)) = Some 1
   \<and> pr_confidence (fst (analyze new_MLPatternDetector permanent_evidence None 0)) = 95 / 100
   \<and> pr_confidence (fst (analyze new_MLPatternDetector permanent_evidence None 0)) \<noteq> 1"
  by code_simp

subsection \<open>The registration check as a probe\<close>

lemma checkRegistration_isRegistered:
  assumes "\<not> isRegistered r"
    and "isRegistered (fst (checkRegistration cfg conn j r now))"
  shows "registered_by (fst (executeWithTimeout (onWhatsApp conn j) (timeout cfg) now))"
proof -
  obtain rep t where e: "executeWithTimeout (onWhatsApp conn j) (timeout cfg) now = (rep, t)"
    by (cases "executeWithTimeout (onWhatsApp conn j) (timeout cfg) now")
  show ?thesis
  proof (cases rep)
    case (Resolve check)
    show ?thesis
    proof (rule ccontr)
      assume "\<not> registered_by (fst (executeWithTimeout (onWhatsApp conn j) (timeout cfg) now))"
      then have "\<not> registered_by (Resolve check)" by (simp add: e Resolve)
      from checkRegistration_not_registered[OF e[unfolded Resolve] this, of r]
      show False using assms(2) by simp
    qed
  next
    case (Reject err)
    show ?thesis
    proof (cases "recordError ''registration'' err r t")
      case (Inl exc)
      then show ?thesis
        using checkRegistration_rejected[OF e[unfolded Reject], of r] assms by simp
    next
      case (Inr r1)
      from recordError_Inr(1)[OF Inr] have "isRegistered r1 = isRegistered r"
        by (simp add: frame_def)
      then show ?thesis
        using checkRegistration_rejected[OF e[unfolded Reject], of r] assms Inr by simp
    qed
  qed
qed

lemma analyze_detector:
  "snd (analyze d errs rate t) =
     updateHistory d (extractFeatures errs rate) (fst (analyze d errs rate t)) t"
  by (simp add: analyze_def Let_def)

lemma patternAnalysis_detector:
  "snd (patternAnalysis (Some d) r t)
     = Some (snd (analyze d (errorDetails (diagnostics r)) (probe_successRate r) t))"
  "pr_type (fst (analyze d (errorDetails (diagnostics r)) (probe_successRate r) t)) \<noteq> NONE
     \<Longrightarrow> ban_type (ban (fst (patternAnalysis (Some d) r t)))
          = pr_type (fst (analyze d (errorDetails (diagnostics r)) (probe_successRate r) t))"
  by (cases "analyze d (errorDetails (diagnostics r)) (probe_successRate r) t";
      simp add: patternAnalysis_def push_detectionMethod_def)+

lemma pipeline_counts_registration:
  assumes a: "v_mlDetector v = Some d
        \<and> executePipeline v conn j (createResultObject p j now) now = (rf, v', t, None)
        \<and> isRegistered rf"
  shows "registered_by (fst (executeWithTimeout (onWhatsApp conn j) (timeout (v_config v)) now))
          \<and> probsExecuted (diagnostics rf) = 1 + length (buildProbeList (v_config v) conn j)
          \<and> 1 \<le> probsSuccessful (diagnostics rf)
          \<and> probsSuccessful (diagnostics rf) \<le> probsExecuted (diagnostics rf)
          \<and> v_mlDetector v' =
              Some (snd (analyze d (errorDetails (diagnostics rf))
                      (Some (of_nat (probsSuccessful (diagnostics rf))
                             / of_nat (probsExecuted (diagnostics rf)))) t))
          \<and> (pr_type (fst (analyze d (errorDetails (diagnostics rf))
                      (Some (of_nat (probsSuccessful (diagnostics rf))
                             / of_nat (probsExecuted (diagnostics rf)))) t)) \<noteq> NONE
              \<longrightarrow> ban_type (ban rf) =
                    pr_type (fst (analyze d (errorDetails (diagnostics rf))
                      (Some (of_nat (probsSuccessful (diagnostics rf))
                             / of_nat (probsExecuted (diagnostics rf)))) t)))"
proof -
  let ?r0 = "createResultObject p j now"
  let ?cfg = "v_config v"
  let ?n = "length (buildProbeList ?cfg conn j)"
  let ?rate = "Some (of_nat (probsSuccessful (diagnostics rf)) / of_nat (probsExecuted (diagnostics rf)))
                 :: rat option"
  have main: "registered_by (fst (executeWithTimeout (onWhatsApp conn j) (timeout ?cfg) now))
          \<and> probsExecuted (diagnostics rf) = 1 + ?n
          \<and> 1 \<le> probsSuccessful (diagnostics rf)
          \<and> probsSuccessful (diagnostics rf) \<le> probsExecuted (diagnostics rf)
          \<and> v_mlDetector v' = Some (snd (analyze d (errorDetails (diagnostics rf)) ?rate t))
          \<and> (pr_type (fst (analyze d (errorDetails (diagnostics rf)) ?rate t)) \<noteq> NONE
              \<longrightarrow> ban_type (ban rf) = pr_type (fst (analyze d (errorDetails (diagnostics rf)) ?rate t)))"
  proof (cases rule: executePipeline_cases[of v conn j ?r0 now])
    case (registration_raised r1 t1 exc)
    with a show ?thesis by simp
  next
    case (not_registered r1 t1)
    then have "rf = finalizeResult
                      (r1\<lparr>ban := (ban r1)\<lparr>isBanned := True, ban_type := PERMANENT\<rparr>,
                          summary := ''Not registered or permanently banned''\<rparr>) t1 t1"
      using a by simp
    then have "\<not> isRegistered rf"
      using not_registered(2) by (simp add: finalizeResult_result)
    with a show ?thesis by simp
  next
    case (probes_raised r1 t1 r2 t2 exc)
    with a show ?thesis by simp
  next
    case (analysed r1 t1 r2 t2)
    have r1: "r1 = fst (checkRegistration ?cfg conn j ?r0 now)"
      using analysed(1) by simp
    have reg: "registered_by (fst (executeWithTimeout (onWhatsApp conn j) (timeout ?cfg) now))"
      using checkRegistration_isRegistered[of ?r0 ?cfg conn j now] analysed(2)
      unfolding r1 by (simp add: createResultObject_fresh)
    with checkRegistration_result[of ?cfg conn j ?r0 now]
    have c1: "probsExecuted (diagnostics r1) = 1" "probsSuccessful (diagnostics r1) = 1"
      unfolding r1 by (simp_all add: createResultObject_fresh)
    have r2: "r2 = fst (executeProbes ?cfg conn j r1 t1)"
      "snd (snd (executeProbes ?cfg conn j r1 t1)) = None"
      using analysed(3) by simp_all
    from executeProbes_result[of r1 ?cfg conn j t1] r2
    have c2: "probsExecuted (diagnostics r2) = 1 + ?n"
      "1 \<le> probsSuccessful (diagnostics r2)"
      "probsSuccessful (diagnostics r2) \<le> probsExecuted (diagnostics r2)"
      using c1 by (simp_all add: probed_def)
    have rf: "rf = finalizeResult (analyzeReviewOptions (fst (patternAnalysis (Some d) r2 t2))) t2 t2"
      and v': "v' = v\<lparr>v_mlDetector := snd (patternAnalysis (Some d) r2 t2)\<rparr>"
      and t: "t = t2"
      using analysed(4) a by simp_all
    have cf: "probsExecuted (diagnostics rf) = probsExecuted (diagnostics r2)"
      "probsSuccessful (diagnostics rf) = probsSuccessful (diagnostics r2)"
      "errorDetails (diagnostics rf) = errorDetails (diagnostics r2)"
      "ban rf = ban (fst (patternAnalysis (Some d) r2 t2))"
      unfolding rf
      by (simp_all add: finalizeResult_result analyzeReviewOptions_result patternAnalysis_result)
    have rate: "probe_successRate r2 =
                  Some (of_nat (probsSuccessful (diagnostics r2)) / of_nat (probsExecuted (diagnostics r2)))"
      using c2(1) by (simp add: probe_successRate_def)
    note pa = patternAnalysis_detector[of d r2 t2, unfolded rate]
    have det: "v_mlDetector v' =
                 Some (snd (analyze d (errorDetails (diagnostics r2))
                   (Some (of_nat (probsSuccessful (diagnostics r2))
                          / of_nat (probsExecuted (diagnostics r2)))) t2))"
      unfolding v' using pa(1) by simp
    show ?thesis
      unfolding cf t using reg c2 det pa(2) by blast
  qed
  then show ?thesis by blast
qed

text \<open>
  C10. The registration check adds one to both counters when it reports that the account
  exists, and leaves both otherwise. A run of the pipeline from a fresh result object
  that ends with a registered account and without an exception has counted the
  registration check and every probe of the list as executed, and the registration check
  among the successful ones; the success rate given to \<open>analyze\<close> is the quotient of these
  two counters, and the kind it predicts, if any, is the kind of ban of the result.
\<close>

theorem registration_counts_as_probe:
  "(registered_by (fst (executeWithTimeout (onWhatsApp conn j) (timeout cfg) now))
      \<longrightarrow> probsExecuted (diagnostics (fst (checkRegistration cfg conn j r now)))
            = probsExecuted (diagnostics r) + 1
          \<and> probsSuccessful (diagnostics (fst (checkRegistration cfg conn j r now)))
            = probsSuccessful (diagnostics r) + 1)
   \<and> (\<not> registered_by (fst (executeWithTimeout (onWhatsApp conn j) (timeout cfg) now))
      \<longrightarrow> probsExecuted (diagnostics (fst (checkRegistration cfg conn j r now)))
            = probsExecuted (diagnostics r)
          \<and> probsSuccessful (diagnostics (fst (checkRegistration cfg conn j r now)))
            = probsSuccessful (diagnostics r))
   \<and> (v_mlDetector v = Some d
        \<and> executePipeline v conn j (createResultObject p j now) now = (rf, v', t, None)
        \<and> isRegistered rf
      \<longrightarrow> registered_by (fst (executeWithTimeout (onWhatsApp conn j) (timeout (v_config v)) now))
          \<and> probsExecuted (diagnostics rf) = 1 + length (buildProbeList (v_config v) conn j)
          \<and> 1 \<le> probsSuccessful (diagnostics rf)
          \<and> probsSuccessful (diagnostics rf) \<le> probsExecuted (diagnostics rf)
          \<and> v_mlDetector v' =
              Some (snd (analyze d (errorDetails (diagnostics rf))
                      (Some (of_nat (probsSuccessful (diagnostics rf))
                             / of_nat (probsExecuted (diagnostics rf)))) t))
          \<and> (pr_type (fst (analyze d (errorDetails (diagnostics rf))
                      (Some (of_nat (probsSuccessful (diagnostics rf))
                             / of_nat (probsExecuted (diagnostics rf)))) t)) \<noteq> NONE
              \<longrightarrow> ban_type (ban rf) =
                    pr_type (fst (analyze d (errorDetails (diagnostics rf))
                      (Some (of_nat (probsSuccessful (diagnostics rf))
                             / of_nat (probsExecuted (diagnostics rf)))) t))))"
proof -
  have reg: "registered_by (fst (executeWithTimeout (onWhatsApp conn j) (timeout cfg) now))
      \<longrightarrow> probsExecuted (diagnostics (fst (checkRegistration cfg conn j r now)))
            = probsExecuted (diagnostics r) + 1
          \<and> probsSuccessful (diagnostics (fst (checkRegistration cfg conn j r now)))
            = probsSuccessful (diagnostics r) + 1"
    using checkRegistration_result[of cfg conn j r now] by simp
  have unreg: "\<not> registered_by (fst (executeWithTimeout (onWhatsApp conn j) (timeout cfg) now))
      \<longrightarrow> probsExecuted (diagnostics (fst (checkRegistration cfg conn j r now)))
            = probsExecuted (diagnostics r)
          \<and> probsSuccessful (diagnostics (fst (checkRegistration cfg conn j r now)))
            = probsSuccessful (diagnostics r)"
    using checkRegistration_result[of cfg conn j r now] by simp
  show ?thesis
    using reg unreg pipeline_counts_registration[of v d conn j p now rf v' t] by blast
qed

theorem registration_counts_as_probe_witness:
  "registered_by (fst (executeWithTimeout
       (onWhatsApp (answering (Resolve (Some [True])) (Resolve Opaque)) ''1@s.whatsapp.net'')
       (timeout (default_config\<lparr>enablePresenceCheck := False\<rparr>)) 1000))
   \<and> (let out = executePipeline (new_validator (default_config\<lparr>enablePresenceCheck := False\<rparr>))
                  (answering (Resolve (Some [True])) (Resolve Opaque)) ''1@s.whatsapp.net''
                  (createResultObject ''1'' ''1@s.whatsapp.net'' 1000) 1000
      in isRegistered (fst out) \<and> snd (snd (snd out)) = None
         \<and> probsExecuted (diagnostics (fst out)) = 4
         \<and> probsSuccessful (diagnostics (fst out)) = 4
         \<and> map (\<lambda>h. successRate (h_features h))
               (case v_mlDetector (fst (snd out)) of None \<Rightarrow> [] | Some d' \<Rightarrow> history d') = [1])"
proof -
  let ?cfg = "default_config\<lparr>enablePresenceCheck := False\<rparr>"
  let ?conn = "answering (Resolve (Some [True])) (Resolve Opaque)"
  let ?j = "''1@s.whatsapp.net''"
  let ?out = "executePipeline (new_validator ?cfg) ?conn ?j (createResultObject ''1'' ?j 1000) 1000"
  have h1: "registered_by (fst (executeWithTimeout (onWhatsApp ?conn ?j) (timeout ?cfg) 1000))"
    by code_simp
  have h2: "isRegistered (fst ?out) \<and> snd (snd (snd ?out)) = None
         \<and> probsExecuted (diagnostics (fst ?out)) = 4
         \<and> probsSuccessful (diagnostics (fst ?out)) = 4
         \<and> map (\<lambda>h. successRate (h_features h))
               (case v_mlDetector (fst (snd ?out)) of None \<Rightarrow> [] | Some d' \<Rightarrow> history d') = [1]"
    by code_simp
  have h3: "v_mlDetector (new_validator ?cfg) = Some new_MLPatternDetector"
    by (simp add: new_validator_def default_config_def)
  have h4: "?out = (fst ?out, fst (snd ?out), fst (snd (snd ?out)), None)"
    using h2 by (cases ?out) simp
  show ?thesis
    using h1 h2 h3 h4
      registration_counts_as_probe[of ?conn ?j ?cfg 1000 "createResultObject ''1'' ?j 1000"
        "new_validator ?cfg" new_MLPatternDetector "''1''" "fst ?out" "fst (snd ?out)"
        "fst (snd (snd ?out))"]
    by (simp add: Let_def)
qed

end
